theory Spec2Isabelle
  imports Main "HOL-Library.Char_ord" "HOL-Library.Sublist"
begin

section \<open>Byte slices, panics and non-termination\<close>

text \<open>
  A Go \<^verbatim>\<open>[]byte\<close> and a Go \<^verbatim>\<open>string\<close> are both lists of 8-bit characters here.
  Offsets are Go \<^verbatim>\<open>int\<close>s, modelled as unbounded integers: every offset the package
  computes is bounded by the length of a buffer, so 64-bit wrap-around never occurs.

  An index or slice expression outside its range is a run-time panic in Go; the model
  keeps it as the value \<open>Panic\<close>, and says whether the JSON buffer or the path string
  was indexed. Functions that contain a loop which may spin forever return an
  \<open>option\<close> on top: \<open>None\<close> is "does not return".
\<close>

type_synonym bytes = "char list"

datatype panic = BufferOutOfRange | PathOutOfRange

datatype 'a res = Panic panic | Ret 'a

fun bindR :: "'a res \<Rightarrow> ('a \<Rightarrow> 'b res) \<Rightarrow> 'b res" where
  "bindR (Panic e) f = Panic e"
| "bindR (Ret x) f = f x"

fun bindE :: "'a res option \<Rightarrow> ('a \<Rightarrow> 'b res option) \<Rightarrow> 'b res option" where
  "bindE None f = None"
| "bindE (Some (Panic e)) f = Some (Panic e)"
| "bindE (Some (Ret x)) f = f x"

text \<open>\<^verbatim>\<open>json[i]\<close>, \<^verbatim>\<open>json[i:]\<close>, \<^verbatim>\<open>json[:i]\<close>, \<^verbatim>\<open>json[lo:hi]\<close> and \<^verbatim>\<open>json[i] = c\<close>.\<close>

definition byteAt :: "bytes \<Rightarrow> int \<Rightarrow> char res" where
  "byteAt json i =
     (if 0 \<le> i \<and> i < int (length json) then Ret (json ! nat i) else Panic BufferOutOfRange)"

definition sliceFrom :: "bytes \<Rightarrow> int \<Rightarrow> bytes res" where
  "sliceFrom json i =
     (if 0 \<le> i \<and> i \<le> int (length json) then Ret (drop (nat i) json)
      else Panic BufferOutOfRange)"

definition sliceTo :: "bytes \<Rightarrow> int \<Rightarrow> bytes res" where
  "sliceTo json i =
     (if 0 \<le> i \<and> i \<le> int (length json) then Ret (take (nat i) json)
      else Panic BufferOutOfRange)"

definition sliceBetween :: "bytes \<Rightarrow> int \<Rightarrow> int \<Rightarrow> bytes res" where
  "sliceBetween json lo hi =
     (if 0 \<le> lo \<and> lo \<le> hi \<and> hi \<le> int (length json)
      then Ret (take (nat (hi - lo)) (drop (nat lo) json))
      else Panic BufferOutOfRange)"

definition store :: "bytes \<Rightarrow> int \<Rightarrow> char \<Rightarrow> bytes res" where
  "store json i c =
     (if 0 \<le> i \<and> i < int (length json) then Ret (json[nat i := c])
      else Panic BufferOutOfRange)"

text \<open>The same slice expressions on the path string.\<close>

definition pathFrom :: "bytes \<Rightarrow> int \<Rightarrow> bytes res" where
  "pathFrom path j =
     (if 0 \<le> j \<and> j \<le> int (length path) then Ret (drop (nat j) path)
      else Panic PathOutOfRange)"

definition pathBetween :: "bytes \<Rightarrow> int \<Rightarrow> int \<Rightarrow> bytes res" where
  "pathBetween path lo hi =
     (if 0 \<le> lo \<and> lo \<le> hi \<and> hi \<le> int (length path)
      then Ret (take (nat (hi - lo)) (drop (nat lo) path))
      else Panic PathOutOfRange)"

text \<open>
  \<^verbatim>\<open>copy(json[i:], val)\<close>: the slice expression may panic; \<^verbatim>\<open>copy\<close> itself writes
  as many bytes as fit.
\<close>

definition copyAt :: "bytes \<Rightarrow> int \<Rightarrow> bytes \<Rightarrow> bytes res" where
  "copyAt json i val =
     bindR (sliceFrom json i) (\<lambda>dst.
       let k = min (length dst) (length val)
       in Ret (take (nat i) json @ take k val @ drop k dst))"

section \<open>Library functions of Go used by the package\<close>

text \<open>
  The range loop \<^verbatim>\<open>for i, c := range s { if P(c) { return i } }; return -1\<close>, which is
  the body of \<^verbatim>\<open>indexObject\<close> and \<^verbatim>\<open>indexArray\<close> and the meaning of
  \<^verbatim>\<open>strings.IndexByte\<close>. The second argument is the slice still to be read, the third
  the index of its first byte.
\<close>

fun indexFrom :: "(char \<Rightarrow> bool) \<Rightarrow> bytes \<Rightarrow> int \<Rightarrow> int" where
  "indexFrom P [] i = - 1"
| "indexFrom P (c # cs) i = (if P c then i else indexFrom P cs (i + 1))"

definition IndexByte :: "bytes \<Rightarrow> char \<Rightarrow> int" where
  "IndexByte s b = indexFrom (\<lambda>c. c = b) s 0"

text \<open>
  \<^verbatim>\<open>strconv.Atoi\<close> on a 64-bit platform: an optional sign, then one or more decimal
  digits and nothing else; \<open>None\<close> is a non-nil error (syntax or range).
\<close>

definition isDigit :: "char \<Rightarrow> bool" where
  "isDigit c = (CHR ''0'' \<le> c \<and> c \<le> CHR ''9'')"

definition decimal :: "bytes \<Rightarrow> int" where
  "decimal ds = foldl (\<lambda>a c. 10 * a + (of_char c - 48)) 0 ds"

definition Atoi :: "bytes \<Rightarrow> int option" where
  "Atoi s =
     (let neg = (s \<noteq> [] \<and> hd s = CHR ''-'');
          ds = (if s \<noteq> [] \<and> (hd s = CHR ''-'' \<or> hd s = CHR ''+'') then tl s else s)
      in if ds = [] \<or> \<not> list_all isDigit ds then None
         else let v = (if neg then - decimal ds else decimal ds)
              in if v < - (2 ^ 63) \<or> 2 ^ 63 - 1 < v then None else Some v)"

section \<open>The scanner\<close>

definition notSpace :: "char \<Rightarrow> bool" where
  "notSpace c =
     (c > CHR '' '' \<or> (c \<noteq> CHR '' '' \<and> c \<noteq> CHR 0x09 \<and> c \<noteq> CHR 0x0A \<and> c \<noteq> CHR 0x0D))"

fun consumeWhitespace :: "bytes \<Rightarrow> bytes" where
  "consumeWhitespace [] = []"
| "consumeWhitespace (c # cs) = (if notSpace c then c # cs else consumeWhitespace cs)"

text \<open>
  \<^verbatim>\<open>prevChar(json, i)\<close>: \<open>prevCharFrom json i k\<close> is the loop at \<^verbatim>\<open>j = k - 1\<close>.
\<close>

fun prevCharFrom :: "bytes \<Rightarrow> int \<Rightarrow> nat \<Rightarrow> char res" where
  "prevCharFrom json i 0 = byteAt json i"
| "prevCharFrom json i (Suc j) =
     bindR (byteAt json (int j)) (\<lambda>c.
       if notSpace c then byteAt json (int j) else prevCharFrom json i j)"

definition prevChar :: "bytes \<Rightarrow> int \<Rightarrow> char res" where
  "prevChar json i = prevCharFrom json i (nat i)"

definition consumeSeparator :: "bytes \<Rightarrow> bytes res" where
  "consumeSeparator json = bindR (sliceFrom json 1) (\<lambda>json. Ret (consumeWhitespace json))"

text \<open>
  \<^verbatim>\<open>consumeString\<close>: \<open>scanString\<close> is the loop, its argument the bytes from index
  \<^verbatim>\<open>i\<close> on; \<open>None\<close> means that the loop ran off the end, in which case
  \<^verbatim>\<open>consumeString\<close> returns its argument unchanged.
\<close>

fun scanString :: "bytes \<Rightarrow> bytes option" where
  "scanString [] = None"
| "scanString (c # cs) =
     (if c = CHR 0x22 then Some cs
      else if c = CHR 0x5C then scanString (drop 1 cs)
      else scanString cs)"

definition consumeString :: "bytes \<Rightarrow> bytes" where
  "consumeString json = (case scanString (drop 1 json) of Some after \<Rightarrow> after | None \<Rightarrow> json)"

definition parseString :: "bytes \<Rightarrow> (bytes \<times> bytes) res" where
  "parseString json =
     (let after = consumeString json;
          strLen = int (length json) - int (length after) - 2
      in bindR (sliceBetween json 1 (1 + strLen)) (\<lambda>key. Ret (key, after)))"

fun consumeNumber :: "bytes \<Rightarrow> bytes" where
  "consumeNumber [] = []"
| "consumeNumber (c # cs) =
     (if \<not> (CHR ''0'' \<le> c \<and> c \<le> CHR ''9'')
      then (if c = CHR ''+'' \<or> c = CHR ''-'' \<or> c = CHR ''.'' \<or> c = CHR ''e'' \<or> c = CHR ''E''
            then consumeNumber cs else c # cs)
      else consumeNumber cs)"

text \<open>
  \<^verbatim>\<open>consumeObject\<close> and \<^verbatim>\<open>consumeArray\<close> are the same function up to the pair of
  delimiters, and so are \<^verbatim>\<open>indexObject\<close> and \<^verbatim>\<open>indexArray\<close>; the model takes the
  delimiters as parameters. The loop need not terminate: on an unterminated string
  \<^verbatim>\<open>consumeString\<close> returns its argument and the loop repeats in the same state.
\<close>

definition indexDelim :: "char \<Rightarrow> char \<Rightarrow> bytes \<Rightarrow> int" where
  "indexDelim opn cls json = indexFrom (\<lambda>c. c = opn \<or> c = cls \<or> c = CHR 0x22) json 0"

partial_function (option) consumeNested :: "char \<Rightarrow> char \<Rightarrow> bytes \<Rightarrow> int \<Rightarrow> bytes res option"
  where
  "consumeNested opn cls json n =
     (if n > 0 then
        (case sliceFrom json (indexDelim opn cls json) of
           Panic e \<Rightarrow> Some (Panic e)
         | Ret json \<Rightarrow>
             (case byteAt json 0 of
                Panic e \<Rightarrow> Some (Panic e)
              | Ret c \<Rightarrow>
                  if c = opn then
                    (case sliceFrom json 1 of
                       Panic e \<Rightarrow> Some (Panic e)
                     | Ret json \<Rightarrow> consumeNested opn cls json (n + 1))
                  else if c = cls then
                    (case sliceFrom json 1 of
                       Panic e \<Rightarrow> Some (Panic e)
                     | Ret json \<Rightarrow> consumeNested opn cls json (n - 1))
                  else if c = CHR 0x22 then consumeNested opn cls (consumeString json) n
                  else consumeNested opn cls json n))
      else Some (Ret json))"

declare consumeNested.simps [code]

definition indexObject :: "bytes \<Rightarrow> int" where
  "indexObject json = indexDelim (CHR ''{'') (CHR ''}'') json"

definition indexArray :: "bytes \<Rightarrow> int" where
  "indexArray json = indexDelim (CHR ''['') (CHR '']'') json"

definition consumeObject :: "bytes \<Rightarrow> bytes res option" where
  "consumeObject json =
     bindE (Some (sliceFrom json 1)) (\<lambda>json. consumeNested (CHR ''{'') (CHR ''}'') json 1)"

definition consumeArray :: "bytes \<Rightarrow> bytes res option" where
  "consumeArray json =
     bindE (Some (sliceFrom json 1)) (\<lambda>json. consumeNested (CHR ''['') (CHR '']'') json 1)"

definition consumeValue :: "bytes \<Rightarrow> bytes res option" where
  "consumeValue json =
     bindE (Some (byteAt json 0)) (\<lambda>c.
       if c = CHR ''{'' then consumeObject json
       else if c = CHR ''['' then consumeArray json
       else if c = CHR 0x22 then Some (Ret (consumeString json))
       else if c = CHR ''t'' \<or> c = CHR ''n'' then Some (sliceFrom json 4)
       else if c = CHR ''f'' then Some (sliceFrom json 5)
       else Some (Ret (consumeNumber json)))"


subsection \<open>Every scanner returns a suffix of its argument\<close>

lemma bindE_cong [fundef_cong]:
  "m = m' \<Longrightarrow> (\<And>x. m' = Some (Ret x) \<Longrightarrow> f x = f' x) \<Longrightarrow> bindE m f = bindE m' f'"
  by (cases m'; simp) (rename_tac r, case_tac r; simp)

lemma bindR_cong [fundef_cong]:
  "m = m' \<Longrightarrow> (\<And>x. m' = Ret x \<Longrightarrow> f x = f' x) \<Longrightarrow> bindR m f = bindR m' f'"
  by (cases m'; simp)

lemma bindR_eq_Ret: "bindR m f = Ret y \<longleftrightarrow> (\<exists>x. m = Ret x \<and> f x = Ret y)"
  by (cases m) simp_all

lemma bindE_eq_Some_Ret: "bindE m f = Some (Ret y) \<longleftrightarrow> (\<exists>x. m = Some (Ret x) \<and> f x = Some (Ret y))"
  by (cases m; simp) (rename_tac r, case_tac r; simp)

lemma sliceFrom_suffix: "sliceFrom json i = Ret r \<Longrightarrow> suffix r json"
  by (auto simp: sliceFrom_def suffix_drop split: if_splits)

lemma sliceFrom_length:
  "sliceFrom json i = Ret r \<Longrightarrow> 0 \<le> i \<and> int (length r) = int (length json) - i"
  by (auto simp: sliceFrom_def split: if_splits)

lemma consumeWhitespace_suffix: "suffix (consumeWhitespace json) json"
  by (induction json) (auto simp: suffix_Cons)

lemma suffix_chain: "suffix a b \<Longrightarrow> suffix b c \<Longrightarrow> suffix a c"
  by (auto simp: suffix_def)

lemma scanString_suffix:
  "scanString json = Some r \<Longrightarrow> suffix r json \<and> length r < length json"
proof (induction json arbitrary: r rule: scanString.induct)
  case 1
  then show ?case by simp
next
  case (2 c cs)
  have d: "suffix (drop 1 cs) cs" by (rule suffix_drop)
  show ?case
  proof (cases "c = CHR 0x22")
    case True
    with 2(3) show ?thesis by (auto simp: suffix_Cons)
  next
    case q: False
    show ?thesis
    proof (cases "c = CHR 0x5C")
      case True
      with q 2(1)[of r] 2(3) have "suffix r (drop 1 cs) \<and> length r < length (drop 1 cs)"
        by simp
      with d show ?thesis by (auto intro: suffix_ConsI suffix_chain)
    next
      case False
      with q 2(2)[of r] 2(3) have "suffix r cs \<and> length r < length cs" by simp
      then show ?thesis by (auto intro: suffix_ConsI)
    qed
  qed
qed

lemma consumeString_suffix: "suffix (consumeString json) json"
proof (cases "scanString (drop 1 json)")
  case None
  then show ?thesis by (simp add: consumeString_def)
next
  case (Some r)
  then have "suffix r (drop 1 json)" using scanString_suffix by blast
  moreover have "suffix (drop 1 json) json" by (rule suffix_drop)
  ultimately show ?thesis using Some by (auto simp: consumeString_def intro: suffix_chain)
qed

lemma consumeNumber_suffix: "suffix (consumeNumber json) json"
  by (induction json) (auto simp: suffix_Cons)

lemma consumeNested_suffix_aux:
  "consumeNested opn cls json n = Some y \<Longrightarrow> \<forall>r. y = Ret r \<longrightarrow> suffix r json"
proof (rule consumeNested.raw_induct
    [where P = "\<lambda>opn cls json n y. \<forall>r. y = Ret r \<longrightarrow> suffix r json"], goal_cases)
  case (1 f opn cls json n y)
  note IH = 1(2) and body = 1(3)
  show ?case
  proof (cases "n > 0")
    case False
    with body show ?thesis by auto
  next
    case True
    show ?thesis
    proof (intro allI impI)
      fix r assume yr: "y = Ret r"
      from body True yr obtain j1 where j1: "sliceFrom json (indexDelim opn cls json) = Ret j1"
        by (auto split: res.splits)
      from j1 have s1: "suffix j1 json" by (rule sliceFrom_suffix)
      from body True j1 yr obtain c where c: "byteAt j1 0 = Ret c" by (auto split: res.splits)
      have s2: "\<And>j2. sliceFrom j1 1 = Ret j2 \<Longrightarrow> suffix j2 json"
        using s1 sliceFrom_suffix suffix_chain by blast
      have s3: "suffix (consumeString j1) json"
        using s1 consumeString_suffix suffix_chain by blast
      from body True j1 c yr consider
          (a) j2 where "sliceFrom j1 1 = Ret j2" "f opn cls j2 (n + 1) = Some (Ret r)"
        | (b) j2 where "sliceFrom j1 1 = Ret j2" "f opn cls j2 (n - 1) = Some (Ret r)"
        | (c) "f opn cls (consumeString j1) n = Some (Ret r)"
        | (d) "f opn cls j1 n = Some (Ret r)"
        by (auto split: res.splits if_splits)
      then show "suffix r json"
      proof cases
        case a
        then show ?thesis using IH s2 suffix_chain by blast
      next
        case b
        then show ?thesis using IH s2 suffix_chain by blast
      next
        case c
        then show ?thesis using IH s3 suffix_chain by blast
      next
        case d
        then show ?thesis using IH s1 suffix_chain by blast
      qed
    qed
  qed
qed assumption

lemma consumeNested_suffix:
  "consumeNested opn cls json n = Some (Ret r) \<Longrightarrow> suffix r json"
  using consumeNested_suffix_aux by blast

lemma consumeValue_suffix: "consumeValue json = Some (Ret r) \<Longrightarrow> suffix r json"
proof -
  assume a: "consumeValue json = Some (Ret r)"
  then obtain c where c: "byteAt json 0 = Ret c"
    by (auto simp: consumeValue_def bindE_eq_Some_Ret)
  have nest: "\<And>opn cls. bindE (Some (sliceFrom json 1)) (\<lambda>json. consumeNested opn cls json 1) = Some (Ret r)
     \<Longrightarrow> suffix r json"
    by (auto simp: bindE_eq_Some_Ret dest!: consumeNested_suffix sliceFrom_suffix intro: suffix_chain)
  from a c show ?thesis
    by (auto simp: consumeValue_def consumeObject_def consumeArray_def
        split: if_splits intro: nest consumeString_suffix consumeNumber_suffix
        dest: sliceFrom_suffix)
qed

lemma consumeSeparator_suffix:
  "consumeSeparator json = Ret r \<Longrightarrow> suffix r json \<and> length r < length json"
proof -
  assume "consumeSeparator json = Ret r"
  then have r: "r = consumeWhitespace (drop 1 json)" and ne: "json \<noteq> []"
    by (auto simp: consumeSeparator_def sliceFrom_def split: if_splits)
  have "suffix r (drop 1 json)" unfolding r by (rule consumeWhitespace_suffix)
  moreover have "suffix (drop 1 json) json" by (rule suffix_drop)
  moreover have "length (drop 1 json) < length json" using ne by (cases json) auto
  ultimately show ?thesis using suffix_length_le[of r "drop 1 json"] suffix_chain by fastforce
qed

lemma parseString_suffix:
  "parseString json = Ret (key, after) \<Longrightarrow> suffix after json \<and> length after + 2 \<le> length json"
  by (auto simp: parseString_def sliceBetween_def Let_def consumeString_suffix split: if_splits)

section \<open>The accessor locator\<close>

text \<open>
  The two loops of \<^verbatim>\<open>locateAccessor\<close>. \<open>objectLoop\<close> is the loop over the members of
  an object, entered with \<^verbatim>\<open>json\<close> just behind the opening brace; \<open>arrayLoop\<close> skips
  array elements and returns the final \<^verbatim>\<open>arrayLen\<close> and \<^verbatim>\<open>json\<close>. Go evaluates
  \<^verbatim>\<open>n > arrayLen\<close> first and reads \<^verbatim>\<open>json[0]\<close> only if it holds.
\<close>

function objectLoop :: "int \<Rightarrow> bytes \<Rightarrow> bytes \<Rightarrow> int res option" where
  "objectLoop origLen acc json =
     bindE (Some (byteAt json 0)) (\<lambda>c.
       if c \<noteq> CHR ''}'' then
         bindE (Some (parseString json)) (\<lambda>(key, json1).
           let json2 = consumeWhitespace json1 in
           bindE (Some (consumeSeparator json2)) (\<lambda>json3.
             if key = acc then Some (Ret (origLen - int (length json3)))
             else
               bindE (consumeValue json3) (\<lambda>json4.
                 let json5 = consumeWhitespace json4 in
                 bindE (Some (byteAt json5 0)) (\<lambda>c'.
                   if c' = CHR '','' then
                     bindE (Some (consumeSeparator json5)) (\<lambda>json6.
                       objectLoop origLen acc json6)
                   else objectLoop origLen acc json5))))
       else Some (Ret (origLen - int (length json))))"
  by pat_completeness auto
termination
proof (relation "measure (\<lambda>(origLen, acc, json). length json)", goal_cases)
  case 1
  show ?case by simp
next
  case (2 origLen acc json c kj key json1 json2 json3 json4 json5 c' json6)
  have "length json1 < length json" using 2 parseString_suffix[of json key json1] by auto
  moreover have "length json2 \<le> length json1"
    using 2 consumeWhitespace_suffix[of json1] by (auto dest: suffix_length_le)
  moreover have "length json3 \<le> length json2"
    using 2 consumeSeparator_suffix[of json2 json3] by auto
  moreover have "length json4 \<le> length json3"
    using 2 consumeValue_suffix[of json3 json4] by (auto dest: suffix_length_le)
  moreover have "length json5 \<le> length json4"
    using 2 consumeWhitespace_suffix[of json4] by (auto dest: suffix_length_le)
  moreover have "length json6 \<le> length json5"
    using 2 consumeSeparator_suffix[of json5 json6] by auto
  ultimately show ?case by simp
next
  case (3 origLen acc json c kj key json1 json2 json3 json4 json5 c')
  have "length json1 < length json" using 3 parseString_suffix[of json key json1] by auto
  moreover have "length json2 \<le> length json1"
    using 3 consumeWhitespace_suffix[of json1] by (auto dest: suffix_length_le)
  moreover have "length json3 \<le> length json2"
    using 3 consumeSeparator_suffix[of json2 json3] by auto
  moreover have "length json4 \<le> length json3"
    using 3 consumeValue_suffix[of json3 json4] by (auto dest: suffix_length_le)
  moreover have "length json5 \<le> length json4"
    using 3 consumeWhitespace_suffix[of json4] by (auto dest: suffix_length_le)
  ultimately show ?case by simp
qed

declare objectLoop.simps [simp del]

function arrayLoop :: "int \<Rightarrow> int \<Rightarrow> bytes \<Rightarrow> (int \<times> bytes) res option" where
  "arrayLoop n arrayLen json =
     (if n > arrayLen then
        bindE (Some (byteAt json 0)) (\<lambda>c.
          if c \<noteq> CHR '']'' then
            bindE (consumeValue json) (\<lambda>json1.
              let json2 = consumeWhitespace json1 in
              bindE (Some (byteAt json2 0)) (\<lambda>c'.
                if c' = CHR '','' then
                  bindE (Some (consumeSeparator json2)) (\<lambda>json3.
                    arrayLoop n (arrayLen + 1) json3)
                else arrayLoop n (arrayLen + 1) json2))
          else Some (Ret (arrayLen, json)))
      else Some (Ret (arrayLen, json)))"
  by pat_completeness auto
termination
  by (relation "measure (\<lambda>(n, arrayLen, json). nat (n - arrayLen))") auto

declare arrayLoop.simps [simp del]

definition locateAccessor :: "bytes \<Rightarrow> bytes \<Rightarrow> int res option" where
  "locateAccessor json0 acc =
     (let origLen = int (length json0);
          json = consumeWhitespace json0
      in if length json = 0 \<or> length json < length acc then Some (Ret (- 1))
         else
           bindE (Some (byteAt json 0)) (\<lambda>c.
             if c = CHR ''{'' then
               bindE (Some (consumeSeparator json)) (\<lambda>json. objectLoop origLen acc json)
             else if c = CHR ''['' then
               (case Atoi acc of
                  None \<Rightarrow> Some (Ret (- 1))
                | Some n \<Rightarrow>
                    if n < 0 then Some (Ret (- 1))
                    else
                      bindE (Some (consumeSeparator json)) (\<lambda>json.
                        bindE (arrayLoop n 0 json) (\<lambda>(arrayLen, json).
                          if n > arrayLen then Some (Ret (- 1))
                          else Some (Ret (origLen - int (length json))))))
             else if c = CHR ''n'' then
               (case Atoi acc of
                  None \<Rightarrow> Some (Ret (- 1))
                | Some n \<Rightarrow>
                    if n \<noteq> 0 then Some (Ret (- 1))
                    else
                      bindE (Some (sliceFrom json 3)) (\<lambda>json.
                        Some (Ret (origLen - int (length json)))))
             else Some (Ret (- 1))))"

section \<open>The path rewriter\<close>

text \<open>
  What a call leaves behind: the bytes of the slice it returns, the bytes of the
  caller's slice \<^verbatim>\<open>json\<close> after the call, and whether the returned slice is a view of
  the caller's storage.
\<close>

record result =
  returned :: bytes
  buffer :: bytes
  shared :: bool

text \<open>
  The first loop of \<^verbatim>\<open>rewritePath\<close>, entered with \<^verbatim>\<open>lastAcc == ""\<close> at the values
  \<^verbatim>\<open>j\<close> and \<^verbatim>\<open>i\<close>. It ends with \<open>Unmodified\<close> at either \<^verbatim>\<open>return json\<close>, and with
  \<open>Located i lastAcc\<close> when the loop condition fails. The test for an append point
  reads \<^verbatim>\<open>json[accIndex]\<close>, as the source does, although \<^verbatim>\<open>accIndex\<close> is an offset
  into \<^verbatim>\<open>json[i:]\<close>.
\<close>

datatype located = Unmodified | Located int bytes

lemma indexFrom_range: "indexFrom P s i = - 1 \<or> i \<le> indexFrom P s i"
proof (induction s arbitrary: i)
  case Nil
  then show ?case by simp
next
  case (Cons c cs)
  from Cons[of "i + 1"] show ?case by auto
qed

function pathLoop :: "bytes \<Rightarrow> bytes \<Rightarrow> int \<Rightarrow> int \<Rightarrow> located res option" where
  "pathLoop json path j i =
     bindE (Some (pathFrom path j)) (\<lambda>tail.
       let d = IndexByte tail (CHR ''.'');
           dotIndex = (if d = - 1 then int (length tail) else d);
           lastAcc = (if d = - 1 then tail else [])
       in
         bindE (Some (pathBetween path j (j + dotIndex))) (\<lambda>acc.
           bindE (Some (sliceFrom json i)) (\<lambda>sub.
             bindE (locateAccessor sub acc) (\<lambda>accIndex.
               if accIndex = - 1 then Some (Ret Unmodified)
               else
                 bindE (Some (byteAt json accIndex)) (\<lambda>c.
                   if (c = CHR '']'' \<or> c = CHR ''}'' \<or> c = CHR ''l'') \<and> lastAcc = []
                   then Some (Ret Unmodified)
                   else if lastAcc = []
                     then pathLoop json path (j + dotIndex + 1) (i + accIndex)
                     else Some (Ret (Located (i + accIndex) lastAcc)))))))"
  by pat_completeness auto
termination
proof (relation "measure (\<lambda>(json, path, j, i). nat (int (length path) + 1 - j))", goal_cases)
  case 1
  show ?case by simp
next
  case (2 json path j i tail d dotIndex lastAcc acc sub accIndex c)
  have "0 \<le> dotIndex"
    using 2(2,3) indexFrom_range[of "\<lambda>c. c = CHR ''.''" tail 0] by (auto simp: IndexByte_def)
  moreover have "j \<le> int (length path)" using 2(1) by (auto simp: pathFrom_def split: if_splits)
  ultimately show ?case by simp
qed

declare pathLoop.simps [simp del]

text \<open>
  The in-place branch: the writes into \<^verbatim>\<open>json\<close>, then the padding loop
  \<^verbatim>\<open>for j := 0; j < oldLen-newLen; j++ { json[i+j] = ' ' }\<close>.
\<close>

function padLoop :: "bytes \<Rightarrow> int \<Rightarrow> int \<Rightarrow> int \<Rightarrow> bytes res" where
  "padLoop json i j d =
     (if j < d then bindR (store json (i + j) (CHR '' '')) (\<lambda>json. padLoop json i (j + 1) d)
      else Ret json)"
  by pat_completeness auto
termination
  by (relation "measure (\<lambda>(json, i, j, d). nat (d - j))") auto

declare padLoop.simps [simp del]

definition rewriteInPlace :: "bytes \<Rightarrow> int \<Rightarrow> bytes \<Rightarrow> bool \<Rightarrow> int \<Rightarrow> int \<Rightarrow> bytes res" where
  "rewriteInPlace json i val appendNull oldLen newLen =
     bindR
       (if appendNull then
          bindR (store json i (CHR ''['')) (\<lambda>json.
            bindR (copyAt json (i + 1) val) (\<lambda>json.
              store json (i + newLen - 1) (CHR '']'')))
        else copyAt json i val)
       (\<lambda>json. padLoop json (i + newLen) 0 (oldLen - newLen))"

text \<open>The allocating branch: \<^verbatim>\<open>newJSON\<close> from \<^verbatim>\<open>json[:i]\<close>, the switch on \<^verbatim>\<open>json[i]\<close>, and \<^verbatim>\<open>rest\<close>.\<close>

definition spliceNew :: "bytes \<Rightarrow> int \<Rightarrow> bytes \<Rightarrow> bytes \<Rightarrow> bytes \<Rightarrow> bytes res" where
  "spliceNew json i lastAcc val rest =
     bindR (sliceTo json i) (\<lambda>newJSON.
       bindR (byteAt json i) (\<lambda>c.
         bindR
           (if c = CHR ''}'' then
              bindR (prevChar json i) (\<lambda>p.
                Ret ((if p \<noteq> CHR ''{'' then [CHR '',''] else [])
                     @ [CHR 0x22] @ lastAcc @ [CHR 0x22, CHR '':''] @ val))
            else if c = CHR '']'' then
              bindR (prevChar json i) (\<lambda>p.
                Ret ((if p \<noteq> CHR ''['' then [CHR '',''] else []) @ val))
            else if c = CHR ''n'' then Ret ([CHR ''[''] @ val @ [CHR '']''])
            else Ret val)
           (\<lambda>inserted. Ret (newJSON @ inserted @ rest))))"

text \<open>
  The part of \<^verbatim>\<open>rewritePath\<close> behind the loop. \<open>None\<close> from the in-place attempt means
  that the branch was not taken and the function falls through to the allocation.
\<close>

definition replaceAt :: "bytes \<Rightarrow> int \<Rightarrow> bytes \<Rightarrow> bytes \<Rightarrow> bool \<Rightarrow> result res option" where
  "replaceAt json i0 lastAcc val inPlace =
     bindE (Some (byteAt json i0)) (\<lambda>c0.
       let appendNull = (c0 = CHR ''l'' \<and> lastAcc = ''0'');
           i = (if appendNull then i0 - 3 else i0)
       in
         bindE (Some (sliceFrom json i)) (\<lambda>tail.
           bindE (consumeValue tail) (\<lambda>rest.
             bindE
               (Some
                 (if inPlace then
                    bindR (byteAt json i) (\<lambda>c.
                      let oldLen = (if c \<noteq> CHR ''}'' \<and> c \<noteq> CHR '']''
                                    then int (length tail) - int (length rest) else 0);
                          newLen = int (length val) + (if appendNull then 2 else 0)
                      in if newLen \<le> oldLen
                         then bindR (rewriteInPlace json i val appendNull oldLen newLen)
                                (\<lambda>json. Ret (Some json))
                         else Ret None)
                  else Ret None))
               (\<lambda>written.
                  case written of
                    Some json' \<Rightarrow>
                      Some (Ret \<lparr>returned = json', buffer = json', shared = True\<rparr>)
                  | None \<Rightarrow>
                      Some (bindR (spliceNew json i lastAcc val rest) (\<lambda>newJSON.
                        Ret \<lparr>returned = newJSON, buffer = json, shared = False\<rparr>))))))"

text \<open>
  \<^verbatim>\<open>rewritePath\<close>. The extra argument is \<^verbatim>\<open>cap(json)\<close>, which only the branch
  \<^verbatim>\<open>append(json[:0], val...)\<close> reads: \<^verbatim>\<open>append\<close> writes into the caller's storage
  when \<^verbatim>\<open>val\<close> fits the capacity and allocates otherwise.
\<close>

definition rewritePath :: "bytes \<Rightarrow> nat \<Rightarrow> bytes \<Rightarrow> bytes \<Rightarrow> bool \<Rightarrow> result res option" where
  "rewritePath json capacity path val inPlace =
     (if path = [] then
        (if inPlace then
           (if length val \<le> capacity
            then Some (Ret \<lparr>returned = val,
                             buffer = take (length json) (val @ drop (length val) json),
                             shared = True\<rparr>)
            else Some (Ret \<lparr>returned = val, buffer = json, shared = False\<rparr>))
         else Some (Ret \<lparr>returned = val, buffer = json, shared = False\<rparr>))
      else
        bindE (pathLoop json path 0 0) (\<lambda>w.
          case w of
            Unmodified \<Rightarrow> Some (Ret \<lparr>returned = json, buffer = json, shared = True\<rparr>)
          | Located i lastAcc \<Rightarrow> replaceAt json i lastAcc val inPlace))"

text \<open>
  The exported functions. \<^verbatim>\<open>Set\<close> and \<^verbatim>\<open>SetInPlace\<close> hand \<^verbatim>\<open>marshal(obj)\<close> to
  \<^verbatim>\<open>rewritePath\<close>; \<^verbatim>\<open>marshal\<close> is \<^verbatim>\<open>strconv\<close> and \<^verbatim>\<open>encoding/json\<close>, and the model
  takes its result \<open>val\<close> as the argument (for instance \<^verbatim>\<open>3\<close> for the integer 3 and
  \<^verbatim>\<open>"bar"\<close>, with its quotes, for the string bar). The capacity is immaterial when
  \<^verbatim>\<open>inPlace\<close> is false, so \<open>Set\<close> does not take it. The replacement is a value of its
  own: a caller of \<^verbatim>\<open>SetRawInPlace\<close> whose \<^verbatim>\<open>val\<close> shares storage with \<^verbatim>\<open>json\<close> is not
  modelled (the in-place writes would then change \<^verbatim>\<open>val\<close> while it is being copied).
\<close>

definition Set :: "bytes \<Rightarrow> bytes \<Rightarrow> bytes \<Rightarrow> result res option" where
  "Set json path val = rewritePath json (length json) path val False"

definition SetInPlace :: "bytes \<Rightarrow> nat \<Rightarrow> bytes \<Rightarrow> bytes \<Rightarrow> result res option" where
  "SetInPlace json capacity path val = rewritePath json capacity path val True"

definition SetRawInPlace :: "bytes \<Rightarrow> nat \<Rightarrow> bytes \<Rightarrow> bytes \<Rightarrow> result res option" where
  "SetRawInPlace json capacity path val = rewritePath json capacity path val True"

section \<open>Well-formed JSON texts\<close>

definition numChar :: "char \<Rightarrow> bool" where
  "numChar c =
     ((CHR ''0'' \<le> c \<and> c \<le> CHR ''9'') \<or> c = CHR ''+'' \<or> c = CHR ''-'' \<or> c = CHR ''.''
      \<or> c = CHR ''e'' \<or> c = CHR ''E'')"

definition whitespace :: "bytes \<Rightarrow> bool" where
  "whitespace w = list_all (\<lambda>c. \<not> notSpace c) w"

fun strBody :: "bytes \<Rightarrow> bool" where
  "strBody [] = True"
| "strBody (c # cs) =
     (if c = CHR 0x22 then False
      else if c = CHR 0x5C then (case cs of [] \<Rightarrow> False | _ # cs' \<Rightarrow> strBody cs')
      else strBody cs)"

datatype jvalue =
    JNull | JTrue | JFalse | JNumber bytes | JString bytes
  | JArray bytes "jelem list"
  | JObject bytes "jmember list"
and jelem = Elem bytes jvalue bytes
and jmember = Member bytes bytes bytes bytes jvalue bytes

fun commas :: "bytes list \<Rightarrow> bytes" where
  "commas [] = []"
| "commas [x] = x"
| "commas (x # y # ys) = x @ CHR '','' # commas (y # ys)"

primrec render :: "jvalue \<Rightarrow> bytes"
  and renderElem :: "jelem \<Rightarrow> bytes"
  and renderMember :: "jmember \<Rightarrow> bytes" where
  "render JNull = ''null''"
| "render JTrue = ''true''"
| "render JFalse = ''false''"
| "render (JNumber s) = s"
| "render (JString s) = CHR 0x22 # s @ [CHR 0x22]"
| "render (JArray w es) = CHR ''['' # w @ commas (map renderElem es) @ '']''"
| "render (JObject w ms) = CHR ''{'' # w @ commas (map renderMember ms) @ ''}''"
| "renderElem (Elem a v b) = a @ render v @ b"
| "renderMember (Member a k b c v d) =
     a @ CHR 0x22 # k @ CHR 0x22 # b @ CHR '':'' # c @ render v @ d"

fun wfValue :: "jvalue \<Rightarrow> bool"
  and wfElem :: "jelem \<Rightarrow> bool"
  and wfMember :: "jmember \<Rightarrow> bool" where
  "wfValue JNull = True"
| "wfValue JTrue = True"
| "wfValue JFalse = True"
| "wfValue (JNumber s) = (s \<noteq> [] \<and> list_all numChar s)"
| "wfValue (JString s) = strBody s"
| "wfValue (JArray w es) = (whitespace w \<and> list_all wfElem es)"
| "wfValue (JObject w ms) = (whitespace w \<and> list_all wfMember ms)"
| "wfElem (Elem a v b) = (whitespace a \<and> wfValue v \<and> whitespace b)"
| "wfMember (Member a k b c v d) =
     (whitespace a \<and> strBody k \<and> whitespace b \<and> whitespace c \<and> wfValue v \<and> whitespace d)"


subsection \<open>Characters\<close>

lemma notSpace_iff:
  "notSpace c \<longleftrightarrow> c \<noteq> CHR '' '' \<and> c \<noteq> CHR 0x09 \<and> c \<noteq> CHR 0x0A \<and> c \<noteq> CHR 0x0D"
  by (auto simp: notSpace_def)

definition delims :: "char \<Rightarrow> char \<Rightarrow> bool" where
  "delims opn cls = ((opn = CHR ''{'' \<and> cls = CHR ''}'') \<or> (opn = CHR ''['' \<and> cls = CHR '']''))"

definition neutral :: "char \<Rightarrow> char \<Rightarrow> bytes \<Rightarrow> bool" where
  "neutral opn cls s = (\<forall>c \<in> set s. c \<noteq> opn \<and> c \<noteq> cls \<and> c \<noteq> CHR 0x22)"

lemma neutral_simps [simp]:
  "neutral opn cls []"
  "neutral opn cls (c # s) \<longleftrightarrow> c \<noteq> opn \<and> c \<noteq> cls \<and> c \<noteq> CHR 0x22 \<and> neutral opn cls s"
  "neutral opn cls (s @ t) \<longleftrightarrow> neutral opn cls s \<and> neutral opn cls t"
  by (auto simp: neutral_def)

lemma whitespace_simps [simp]:
  "whitespace []"
  "whitespace (c # s) \<longleftrightarrow> \<not> notSpace c \<and> whitespace s"
  "whitespace (s @ t) \<longleftrightarrow> whitespace s \<and> whitespace t"
  by (auto simp: whitespace_def)

lemma whitespace_neutral: "delims opn cls \<Longrightarrow> whitespace w \<Longrightarrow> neutral opn cls w"
  by (induction w) (auto simp: delims_def notSpace_iff)

lemma number_neutral: "delims opn cls \<Longrightarrow> list_all numChar s \<Longrightarrow> neutral opn cls s"
  by (induction s) (auto simp: delims_def numChar_def)

subsection \<open>Scanning a string literal and a number\<close>

lemma scanString_body: "strBody s \<Longrightarrow> scanString (s @ CHR 0x22 # rest) = Some rest"
  by (induction s rule: strBody.induct) (auto split: if_splits list.splits)

lemma consumeString_literal:
  "strBody s \<Longrightarrow> consumeString (CHR 0x22 # s @ CHR 0x22 # rest) = rest"
  by (simp add: consumeString_def scanString_body)

lemma consumeNumber_run:
  "list_all numChar s \<Longrightarrow> rest = [] \<or> \<not> numChar (hd rest) \<Longrightarrow> consumeNumber (s @ rest) = rest"
proof (induction s)
  case Nil
  then show ?case by (cases rest) (auto simp: numChar_def)
next
  case (Cons c s)
  then show ?case by (auto simp: numChar_def)
qed

subsection \<open>The depth-counting loop on well-formed values\<close>

lemma indexFrom_shift:
  "indexFrom P t i = (if indexFrom P t 0 = - 1 then - 1 else i + indexFrom P t 0)"
proof (induction t arbitrary: i)
  case Nil
  then show ?case by simp
next
  case (Cons c t)
  have r: "0 \<le> indexFrom P t 0 \<or> indexFrom P t 0 = - 1" using indexFrom_range[of P t 0] by auto
  show ?case using Cons[of "i + 1"] Cons[of 1] r by auto
qed

lemma indexFrom_bounds:
  "indexFrom P t 0 = - 1 \<or> (0 \<le> indexFrom P t 0 \<and> indexFrom P t 0 < int (length t))"
proof (induction t)
  case Nil
  then show ?case by simp
next
  case (Cons c t)
  then show ?case using indexFrom_shift[of P t 1] by auto
qed

lemma indexFrom_skip:
  "\<forall>c \<in> set s. \<not> P c \<Longrightarrow> indexFrom P (s @ t) i = indexFrom P t (i + int (length s))"
  by (induction s arbitrary: i) (auto simp: algebra_simps)

lemma sliceFrom_skip:
  assumes "\<forall>c \<in> set s. \<not> P c"
  shows "sliceFrom (s @ t) (indexFrom P (s @ t) 0) = sliceFrom t (indexFrom P t 0)"
proof -
  have e: "indexFrom P (s @ t) 0 = indexFrom P t (int (length s))"
    using indexFrom_skip[OF assms, of t 0] by simp
  show ?thesis
  proof (cases "indexFrom P t 0 = - 1")
    case True
    then have "indexFrom P t (int (length s)) = - 1" using indexFrom_shift[of P t "int (length s)"] by simp
    with True e show ?thesis by (simp add: sliceFrom_def)
  next
    case False
    then have b: "0 \<le> indexFrom P t 0" "indexFrom P t 0 < int (length t)"
      using indexFrom_bounds[of P t] by auto
    have "indexFrom P t (int (length s)) = int (length s) + indexFrom P t 0"
      using False indexFrom_shift[of P t "int (length s)"] by simp
    with e b show ?thesis by (simp add: sliceFrom_def nat_add_distrib)
  qed
qed

definition transparent :: "char \<Rightarrow> char \<Rightarrow> bytes \<Rightarrow> bool" where
  "transparent opn cls s =
     (\<forall>n rest. 0 < n \<longrightarrow> consumeNested opn cls (s @ rest) n = consumeNested opn cls rest n)"

lemma transparent_Nil [simp]: "transparent opn cls []"
  by (simp add: transparent_def)

lemma transparent_append:
  "transparent opn cls s \<Longrightarrow> transparent opn cls t \<Longrightarrow> transparent opn cls (s @ t)"
  by (simp add: transparent_def)

lemma transparent_neutral:
  assumes "neutral opn cls s"
  shows "transparent opn cls s"
proof -
  have "\<forall>c \<in> set s. \<not> (c = opn \<or> c = cls \<or> c = CHR 0x22)" using assms by (auto simp: neutral_def)
  then have "\<And>rest. sliceFrom (s @ rest) (indexDelim opn cls (s @ rest))
      = sliceFrom rest (indexDelim opn cls rest)"
    unfolding indexDelim_def by (rule sliceFrom_skip)
  then show ?thesis
    unfolding transparent_def
    by (intro allI impI) (subst consumeNested.simps, subst (2) consumeNested.simps, simp)
qed

lemma consumeNested_head:
  "0 < n \<Longrightarrow> c = opn \<or> c = cls \<or> c = CHR 0x22 \<Longrightarrow>
   consumeNested opn cls (c # s) n =
     (if c = opn then consumeNested opn cls s (n + 1)
      else if c = cls then consumeNested opn cls s (n - 1)
      else consumeNested opn cls (consumeString (c # s)) n)"
  by (subst consumeNested.simps) (auto simp: indexDelim_def sliceFrom_def byteAt_def)

lemma consumeNested_zero: "consumeNested opn cls s 0 = Some (Ret s)"
  by (subst consumeNested.simps) simp

lemma transparent_string:
  "opn \<noteq> CHR 0x22 \<Longrightarrow> cls \<noteq> CHR 0x22 \<Longrightarrow> strBody s \<Longrightarrow>
   transparent opn cls (CHR 0x22 # s @ [CHR 0x22])"
  by (simp add: transparent_def consumeNested_head consumeString_literal)

lemma transparent_nest:
  "opn \<noteq> cls \<Longrightarrow> transparent opn cls s \<Longrightarrow> transparent opn cls (opn # s @ [cls])"
  by (simp add: transparent_def consumeNested_head)

lemma commas_Cons: "commas (x # xs) = x @ (if xs = [] then [] else CHR '','' # commas xs)"
  by (cases xs) simp_all

lemma transparent_commas:
  "delims opn cls \<Longrightarrow> \<forall>x \<in> set xs. transparent opn cls x \<Longrightarrow> transparent opn cls (commas xs)"
proof (induction xs)
  case Nil
  then show ?case by simp
next
  case (Cons x xs)
  have "transparent opn cls [CHR '','']"
    using Cons(2) by (intro transparent_neutral) (auto simp: delims_def)
  then have "transparent opn cls (CHR '','' # commas xs)"
    using Cons transparent_append[of opn cls "[CHR '','']" "commas xs"] by simp
  then show ?case using Cons by (auto simp: commas_Cons intro: transparent_append)
qed

lemma transparent_bracket:
  assumes d: "delims opn cls" and "delims l r" and s: "transparent opn cls s"
  shows "transparent opn cls (l # s @ [r])"
proof (cases "l = opn")
  case True
  with assms have "r = cls" "opn \<noteq> cls" by (auto simp: delims_def)
  with True s show ?thesis by (simp add: transparent_nest)
next
  case False
  with assms have "neutral opn cls [l]" "neutral opn cls [r]" by (auto simp: delims_def)
  then have "transparent opn cls [l]" "transparent opn cls [r]" by (auto intro: transparent_neutral)
  with s have "transparent opn cls ([l] @ s @ [r])" by (intro transparent_append)
  then show ?thesis by simp
qed

lemma transparent_render:
  assumes d: "delims opn cls"
  shows "wfValue v \<Longrightarrow> transparent opn cls (render v)"
    and "wfElem e \<Longrightarrow> transparent opn cls (renderElem e)"
    and "wfMember m \<Longrightarrow> transparent opn cls (renderMember m)"
proof (induction v and e and m rule: wfValue_wfElem_wfMember.induct)
  case 1
  show ?case using d by (auto intro!: transparent_neutral simp: delims_def)
next
  case 2
  show ?case using d by (auto intro!: transparent_neutral simp: delims_def)
next
  case 3
  show ?case using d by (auto intro!: transparent_neutral simp: delims_def)
next
  case (4 s)
  then show ?case using d by (auto intro!: transparent_neutral number_neutral)
next
  case (5 s)
  then show ?case using d transparent_string[of opn cls s] by (auto simp: delims_def)
next
  case (6 w es)
  then have "\<forall>x \<in> set (map renderElem es). transparent opn cls x"
    by (auto simp: list_all_iff)
  then have "transparent opn cls (commas (map renderElem es))"
    using d by (rule transparent_commas[rotated])
  moreover have "transparent opn cls w"
    using 6(2) d by (auto intro: transparent_neutral whitespace_neutral)
  ultimately have "transparent opn cls (w @ commas (map renderElem es))"
    by (rule transparent_append[rotated])
  then have "transparent opn cls (CHR ''['' # (w @ commas (map renderElem es)) @ [CHR '']''])"
    using d by (intro transparent_bracket) (auto simp: delims_def)
  then show ?case by simp
next
  case (7 w ms)
  then have "\<forall>x \<in> set (map renderMember ms). transparent opn cls x"
    by (auto simp: list_all_iff)
  then have "transparent opn cls (commas (map renderMember ms))"
    using d by (rule transparent_commas[rotated])
  moreover have "transparent opn cls w"
    using 7(2) d by (auto intro: transparent_neutral whitespace_neutral)
  ultimately have "transparent opn cls (w @ commas (map renderMember ms))"
    by (rule transparent_append[rotated])
  then have "transparent opn cls (CHR ''{'' # (w @ commas (map renderMember ms)) @ [CHR ''}''])"
    using d by (intro transparent_bracket) (auto simp: delims_def)
  then show ?case by simp
next
  case (8 a v b)
  then have "transparent opn cls a" "transparent opn cls b" "transparent opn cls (render v)"
    using d by (auto intro: transparent_neutral whitespace_neutral)
  then show ?case by (auto intro!: transparent_append)
next
  case (9 a k b c v d')
  then have ws: "transparent opn cls a" "transparent opn cls b" "transparent opn cls c"
      "transparent opn cls d'" "transparent opn cls (render v)"
    using d by (auto intro: transparent_neutral whitespace_neutral)
  have key: "transparent opn cls (CHR 0x22 # k @ [CHR 0x22])"
    using 9(2) d transparent_string[of opn cls k] by (auto simp: delims_def)
  have colon: "transparent opn cls [CHR '':'']"
    using d by (intro transparent_neutral) (auto simp: delims_def)
  have "transparent opn cls
      (a @ (CHR 0x22 # k @ [CHR 0x22]) @ b @ [CHR '':''] @ c @ render v @ d')"
    using ws key colon by (intro transparent_append)
  then show ?case by simp
qed

subsection \<open>\<^verbatim>\<open>consumeValue\<close> consumes exactly one well-formed value\<close>

lemma transparent_elems:
  assumes "delims opn cls" "whitespace w" "list_all wfElem es"
  shows "transparent opn cls (w @ commas (map renderElem es))"
proof -
  have "\<forall>x \<in> set (map renderElem es). transparent opn cls x"
    using assms transparent_render(2)[of opn cls] by (auto simp: list_all_iff)
  then have "transparent opn cls (commas (map renderElem es))"
    using assms(1) by (rule transparent_commas[rotated])
  moreover have "transparent opn cls w"
    using assms by (auto intro: transparent_neutral whitespace_neutral)
  ultimately show ?thesis by (rule transparent_append[rotated])
qed

lemma transparent_members:
  assumes "delims opn cls" "whitespace w" "list_all wfMember ms"
  shows "transparent opn cls (w @ commas (map renderMember ms))"
proof -
  have "\<forall>x \<in> set (map renderMember ms). transparent opn cls x"
    using assms transparent_render(3)[of opn cls] by (auto simp: list_all_iff)
  then have "transparent opn cls (commas (map renderMember ms))"
    using assms(1) by (rule transparent_commas[rotated])
  moreover have "transparent opn cls w"
    using assms by (auto intro: transparent_neutral whitespace_neutral)
  ultimately show ?thesis by (rule transparent_append[rotated])
qed

lemma consumeNested_body:
  assumes "transparent opn cls s" "opn \<noteq> cls"
  shows "consumeNested opn cls (s @ cls # rest) 1 = Some (Ret rest)"
proof -
  have "consumeNested opn cls (s @ cls # rest) 1 = consumeNested opn cls (cls # rest) 1"
    using assms(1) by (simp add: transparent_def)
  also have "\<dots> = consumeNested opn cls rest 0"
    using assms(2) by (simp add: consumeNested_head)
  finally show ?thesis by (simp add: consumeNested_zero)
qed

text \<open>
  A number is scanned to its end only if the byte behind it cannot continue a number;
  inside an array or an object that byte is whitespace, a comma or the closing delimiter.
\<close>

definition followOk :: "jvalue \<Rightarrow> bytes \<Rightarrow> bool" where
  "followOk v rest =
     (case v of JNumber s \<Rightarrow> rest = [] \<or> \<not> numChar (hd rest) | _ \<Rightarrow> True)"

lemma byteAt_Cons [simp]: "byteAt (c # cs) 0 = Ret c"
  by (simp add: byteAt_def)

lemma byteAt_Nil [simp]: "byteAt [] i = Panic BufferOutOfRange"
  by (simp add: byteAt_def)

lemma sliceFrom_0 [simp]: "sliceFrom json 0 = Ret json"
  by (simp add: sliceFrom_def)

lemma sliceFrom_Cons_1 [simp]: "sliceFrom (c # cs) 1 = Ret cs"
  by (simp add: sliceFrom_def)

lemma consumeValue_render:
  assumes "wfValue v" "followOk v rest"
  shows "consumeValue (render v @ rest) = Some (Ret rest)"
proof (cases v)
  case JNull
  then show ?thesis by (simp add: consumeValue_def sliceFrom_def)
next
  case JTrue
  then show ?thesis by (simp add: consumeValue_def sliceFrom_def)
next
  case JFalse
  then show ?thesis by (simp add: consumeValue_def sliceFrom_def)
next
  case (JNumber s)
  with assms obtain c cs where s: "s = c # cs" and c: "numChar c" by (cases s) auto
  from c have "c \<noteq> CHR ''{''" "c \<noteq> CHR ''[''" "c \<noteq> CHR 0x22" "c \<noteq> CHR ''t''" "c \<noteq> CHR ''n''"
    "c \<noteq> CHR ''f''"
    by (auto simp: numChar_def)
  moreover have "consumeNumber (s @ rest) = rest"
    using assms JNumber by (intro consumeNumber_run) (auto simp: followOk_def)
  ultimately show ?thesis using JNumber s by (simp add: consumeValue_def)
next
  case (JString s)
  then show ?thesis using assms by (simp add: consumeValue_def consumeString_literal)
next
  case (JArray w es)
  with assms have "transparent (CHR ''['') (CHR '']'') (w @ commas (map renderElem es))"
    by (intro transparent_elems) (auto simp: delims_def)
  then have "consumeNested (CHR ''['') (CHR '']'') ((w @ commas (map renderElem es)) @ CHR '']'' # rest) 1
      = Some (Ret rest)"
    by (rule consumeNested_body) simp
  then show ?thesis using JArray by (simp add: consumeValue_def consumeArray_def)
next
  case (JObject w ms)
  with assms have "transparent (CHR ''{'') (CHR ''}'') (w @ commas (map renderMember ms))"
    by (intro transparent_members) (auto simp: delims_def)
  then have "consumeNested (CHR ''{'') (CHR ''}'') ((w @ commas (map renderMember ms)) @ CHR ''}'' # rest) 1
      = Some (Ret rest)"
    by (rule consumeNested_body) simp
  then show ?thesis using JObject by (simp add: consumeValue_def consumeObject_def)
qed

lemma render_head:
  assumes "wfValue v"
  obtains c cs where "render v = c # cs" "notSpace c" "c \<noteq> CHR '']''" "c \<noteq> CHR ''}''"
    "c \<noteq> CHR '',''"
proof (cases v)
  case (JNumber s)
  with assms obtain c cs where s: "s = c # cs" and c: "numChar c" by (cases s) auto
  from c have "notSpace c" "c \<noteq> CHR '']''" "c \<noteq> CHR ''}''" "c \<noteq> CHR '',''"
    by (auto simp: numChar_def notSpace_iff)
  then show ?thesis using that JNumber s by simp
qed (auto intro: that simp: notSpace_iff)

lemma render_last:
  assumes "wfValue v"
  obtains cs c where "render v = cs @ [c]" "notSpace c" "c \<noteq> CHR ''[''" "c \<noteq> CHR ''{''"
proof (cases v)
  case (JNumber s)
  with assms have "s \<noteq> []" "numChar (last s)" by (auto simp: list_all_iff)
  then have "s = butlast s @ [last s]" "notSpace (last s)" "last s \<noteq> CHR ''[''" "last s \<noteq> CHR ''{''"
    by (auto simp: numChar_def notSpace_iff)
  then show ?thesis using that[of "butlast s" "last s"] JNumber by simp
next
  case JNull
  then show ?thesis using that[of "''nul''" "CHR ''l''"] by (simp add: notSpace_iff)
next
  case JTrue
  then show ?thesis using that[of "''tru''" "CHR ''e''"] by (simp add: notSpace_iff)
next
  case JFalse
  then show ?thesis using that[of "''fals''" "CHR ''e''"] by (simp add: notSpace_iff)
next
  case (JString s)
  then show ?thesis using that[of "CHR 0x22 # s" "CHR 0x22"] by (simp add: notSpace_iff)
next
  case (JArray w es)
  then show ?thesis using that[of "CHR ''['' # w @ commas (map renderElem es)" "CHR '']''"]
    by (simp add: notSpace_iff)
next
  case (JObject w ms)
  then show ?thesis using that[of "CHR ''{'' # w @ commas (map renderMember ms)" "CHR ''}''"]
    by (simp add: notSpace_iff)
qed

lemma consumeWhitespace_skip:
  "whitespace w \<Longrightarrow> rest = [] \<or> notSpace (hd rest) \<Longrightarrow> consumeWhitespace (w @ rest) = rest"
  by (induction w) (auto, cases rest, auto)

section \<open>The locator on well-formed containers\<close>

definition sepTail :: "bytes list \<Rightarrow> bytes" where
  "sepTail xs = (if xs = [] then [] else CHR '','' # commas xs)"

lemma commas_sepTail: "commas (x # xs) = x @ sepTail xs"
  by (simp add: commas_Cons sepTail_def)

lemma sepTail_Nil [simp]: "sepTail [] = []"
  by (simp add: sepTail_def)

text \<open>
  \<open>findMember acc ms\<close> splits the members of an object at the value of the first member
  whose key, as it stands between its quotes, is \<open>acc\<close>: the text before the value, the
  value, and the text behind it.
\<close>

fun findMember :: "bytes \<Rightarrow> jmember list \<Rightarrow> (bytes \<times> jvalue \<times> bytes) option" where
  "findMember acc [] = None"
| "findMember acc (Member a k b c v d # ms) =
     (if k = acc
      then Some (a @ CHR 0x22 # k @ CHR 0x22 # b @ CHR '':'' # c, v, d @ sepTail (map renderMember ms))
      else map_option (\<lambda>(p, v', q). (renderMember (Member a k b c v d) @ CHR '','' # p, v', q))
             (findMember acc ms))"

text \<open>The same for the element of an array at an index.\<close>

fun nthElem :: "nat \<Rightarrow> jelem list \<Rightarrow> (bytes \<times> jvalue \<times> bytes) option" where
  "nthElem n [] = None"
| "nthElem 0 (Elem a v b # es) = Some (a, v, b @ sepTail (map renderElem es))"
| "nthElem (Suc n) (e # es) =
     map_option (\<lambda>(p, v', q). (renderElem e @ CHR '','' # p, v', q)) (nthElem n es)"

lemma findMember_None_Nil: "findMember acc ms = Some r \<Longrightarrow> ms \<noteq> []"
  by (cases ms) auto

lemma findMember_render:
  "findMember acc ms = Some (p, v, q) \<Longrightarrow> commas (map renderMember ms) = p @ render v @ q"
proof (induction ms arbitrary: p)
  case Nil
  then show ?case by simp
next
  case (Cons m ms)
  obtain a k b c v' d where m: "m = Member a k b c v' d" by (cases m)
  show ?case
  proof (cases "k = acc")
    case True
    with Cons(2) m show ?thesis by (auto simp: commas_sepTail)
  next
    case False
    with Cons(2) m obtain p' where f: "findMember acc ms = Some (p', v, q)"
      and p: "p = renderMember m @ CHR '','' # p'"
      by auto
    from f have "ms \<noteq> []" by (rule findMember_None_Nil)
    with Cons(1)[OF f] p show ?thesis by (simp add: commas_sepTail sepTail_def)
  qed
qed

lemma nthElem_render:
  "nthElem n es = Some (p, v, q) \<Longrightarrow> commas (map renderElem es) = p @ render v @ q"
proof (induction n es arbitrary: p rule: nthElem.induct)
  case (1 n)
  then show ?case by simp
next
  case (2 a v b es)
  then show ?case by (auto simp: commas_sepTail)
next
  case (3 n e es)
  from 3(2) obtain p' where f: "nthElem n es = Some (p', v, q)"
    and p: "p = renderElem e @ CHR '','' # p'"
    by auto
  from f have "es \<noteq> []" by (cases es) auto
  with 3(1)[OF f] p show ?case by (simp add: commas_sepTail sepTail_def)
qed

lemma nthElem_Some_iff: "(\<exists>r. nthElem n es = Some r) \<longleftrightarrow> n < length es"
  by (induction n es rule: nthElem.induct) auto

lemma findMember_wf:
  "findMember acc ms = Some (p, v, q) \<Longrightarrow> list_all wfMember ms \<Longrightarrow> wfValue v"
  by (induction acc ms arbitrary: p rule: findMember.induct) (auto split: if_splits)

lemma nthElem_wf:
  "nthElem n es = Some (p, v, q) \<Longrightarrow> list_all wfElem es \<Longrightarrow> wfValue v"
  by (induction n es arbitrary: p rule: nthElem.induct) auto

subsection \<open>The loop over the members of an object\<close>

text \<open>
  \<open>keyed ms\<close> is the text of the members from the opening quote of the first key on,
  which is what the loop sees at its head; \<open>afterKey acc ms\<close> is what is left of it
  when the loop returns.
\<close>

fun keyed :: "jmember list \<Rightarrow> bytes" where
  "keyed [] = []"
| "keyed (Member a k b c v d # ms) =
     CHR 0x22 # k @ CHR 0x22 # b @ CHR '':'' # c @ render v @ d @ sepTail (map renderMember ms)"

fun afterKey :: "bytes \<Rightarrow> jmember list \<Rightarrow> bytes" where
  "afterKey acc [] = []"
| "afterKey acc (Member a k b c v d # ms) =
     (if k = acc then render v @ d @ sepTail (map renderMember ms) else afterKey acc ms)"

lemma commas_keyed:
  "commas (map renderMember (Member a k b c v d # ms)) = a @ keyed (Member a k b c v d # ms)"
  by (simp add: commas_sepTail)

lemma parseString_literal:
  "strBody k \<Longrightarrow> parseString (CHR 0x22 # k @ CHR 0x22 # r) = Ret (k, r)"
  by (simp add: parseString_def consumeString_literal sliceBetween_def)

lemma consumeSeparator_Cons:
  "whitespace w \<Longrightarrow> r = [] \<or> notSpace (hd r) \<Longrightarrow> consumeSeparator (c # w @ r) = Ret r"
  by (simp add: consumeSeparator_def consumeWhitespace_skip)

lemma objectLoop_members:
  "list_all wfMember ms \<Longrightarrow>
   objectLoop L acc (keyed ms @ CHR ''}'' # rest)
     = Some (Ret (L - int (length (afterKey acc ms @ CHR ''}'' # rest))))"
proof (induction ms)
  case Nil
  show ?case by (subst objectLoop.simps) simp
next
  case (Cons m ms)
  obtain a k b c v d where m: "m = Member a k b c v d" by (cases m)
  from Cons(2) m have wf: "whitespace a" "strBody k" "whitespace b" "whitespace c" "wfValue v"
    "whitespace d" "list_all wfMember ms"
    by auto
  define nxt where "nxt = sepTail (map renderMember ms) @ CHR ''}'' # rest"
  have nxt_head: "nxt \<noteq> [] \<and> notSpace (hd nxt) \<and> \<not> numChar (hd nxt)"
    by (auto simp: nxt_def sepTail_def notSpace_iff numChar_def)
  obtain c0 cs where hd: "render v = c0 # cs" "notSpace c0"
    using render_head[OF wf(5)] by metis
  have st: "keyed (m # ms) @ CHR ''}'' # rest
      = CHR 0x22 # k @ CHR 0x22 # (b @ CHR '':'' # c @ render v @ d @ nxt)"
    by (simp add: m nxt_def)
  have ws1: "consumeWhitespace (b @ CHR '':'' # c @ render v @ d @ nxt)
      = CHR '':'' # c @ render v @ d @ nxt"
    using wf(3) by (intro consumeWhitespace_skip) (auto simp: notSpace_iff)
  have sep: "consumeSeparator (CHR '':'' # c @ render v @ d @ nxt) = Ret (render v @ d @ nxt)"
    using wf(4) hd by (intro consumeSeparator_Cons) auto
  have fo: "followOk v (d @ nxt)"
    using nxt_head wf(6)
    by (cases d) (auto simp: followOk_def numChar_def notSpace_iff split: jvalue.splits)
  have cv: "consumeValue (render v @ d @ nxt) = Some (Ret (d @ nxt))"
    using wf(5) fo by (rule consumeValue_render)
  have ws2: "consumeWhitespace (d @ nxt) = nxt"
    using wf(6) nxt_head by (intro consumeWhitespace_skip) auto
  have step: "objectLoop L acc (CHR 0x22 # k @ CHR 0x22 # (b @ CHR '':'' # c @ render v @ d @ nxt))
      = (if k = acc then Some (Ret (L - int (length (render v @ d @ nxt))))
         else bindE (Some (byteAt nxt 0)) (\<lambda>c'.
                if c' = CHR '','' then bindE (Some (consumeSeparator nxt)) (objectLoop L acc)
                else objectLoop L acc nxt))"
    by (subst objectLoop.simps) (simp add: parseString_literal[OF wf(2)] ws1 sep cv ws2)
  show ?case
  proof (cases "k = acc")
    case True
    then show ?thesis unfolding st step by (simp add: m nxt_def)
  next
    case False
    show ?thesis
    proof (cases "ms = []")
      case True
      then have nxt: "nxt = CHR ''}'' # rest" by (simp add: nxt_def)
      have "objectLoop L acc (keyed (m # ms) @ CHR ''}'' # rest)
          = objectLoop L acc (keyed ms @ CHR ''}'' # rest)"
        unfolding st step using False True by (simp add: nxt)
      then show ?thesis using Cons(1)[OF wf(7)] False m by simp
    next
      case ne: False
      then obtain m' ms' where ms: "ms = m' # ms'" by (cases ms) auto
      obtain a' k' b' c' v' d' where m': "m' = Member a' k' b' c' v' d'" by (cases m')
      from wf(7) ms m' have wa': "whitespace a'" by simp
      have nxt: "nxt = CHR '','' # a' @ keyed ms @ CHR ''}'' # rest"
        using ne by (simp add: nxt_def sepTail_def ms m' commas_sepTail)
      have sep2: "consumeSeparator (CHR '','' # a' @ keyed ms @ CHR ''}'' # rest)
          = Ret (keyed ms @ CHR ''}'' # rest)"
        using wa' by (intro consumeSeparator_Cons) (auto simp: ms m' notSpace_iff)
      have "objectLoop L acc (keyed (m # ms) @ CHR ''}'' # rest)
          = objectLoop L acc (keyed ms @ CHR ''}'' # rest)"
        unfolding st step using False by (simp add: nxt sep2)
      then show ?thesis using Cons(1)[OF wf(7)] False m by simp
    qed
  qed
qed

subsection \<open>The loop over the elements of an array\<close>

fun elemsFrom :: "jelem list \<Rightarrow> bytes" where
  "elemsFrom [] = []"
| "elemsFrom (Elem a v b # es) = render v @ b @ sepTail (map renderElem es)"

lemma commas_elemsFrom:
  "commas (map renderElem (Elem a v b # es)) = a @ elemsFrom (Elem a v b # es)"
  by (simp add: commas_sepTail)

lemma arrayLoop_elems:
  "list_all wfElem es \<Longrightarrow> k \<le> n \<Longrightarrow>
   arrayLoop n k (elemsFrom es @ CHR '']'' # rest)
     = Some (Ret (k + int (min (nat (n - k)) (length es)),
                  elemsFrom (drop (nat (n - k)) es) @ CHR '']'' # rest))"
proof (induction es arbitrary: k)
  case Nil
  show ?case by (subst arrayLoop.simps) simp
next
  case (Cons e es)
  obtain a v b where e: "e = Elem a v b" by (cases e)
  from Cons(2) e have wf: "whitespace a" "wfValue v" "whitespace b" "list_all wfElem es"
    by auto
  show ?case
  proof (cases "n > k")
    case False
    with Cons(3) have "n = k" by simp
    then show ?thesis by (subst arrayLoop.simps) simp
  next
    case True
    define nxt where "nxt = sepTail (map renderElem es) @ CHR '']'' # rest"
    have nxt_head: "nxt \<noteq> [] \<and> notSpace (hd nxt) \<and> \<not> numChar (hd nxt)"
      by (auto simp: nxt_def sepTail_def notSpace_iff numChar_def)
    obtain c0 cs where hd: "render v = c0 # cs" "c0 \<noteq> CHR '']''"
      using render_head[OF wf(2)] by metis
    have st: "elemsFrom (e # es) @ CHR '']'' # rest = render v @ b @ nxt"
      by (simp add: e nxt_def)
    have fo: "followOk v (b @ nxt)"
      using nxt_head wf(3)
      by (cases b) (auto simp: followOk_def numChar_def notSpace_iff split: jvalue.splits)
    have cv: "consumeValue (render v @ b @ nxt) = Some (Ret (b @ nxt))"
      using wf(2) fo by (rule consumeValue_render)
    have ws2: "consumeWhitespace (b @ nxt) = nxt"
      using wf(3) nxt_head by (intro consumeWhitespace_skip) auto
    have b0: "byteAt (render v @ b @ nxt) 0 = Ret c0" using hd(1) by simp
    have step: "arrayLoop n k (render v @ b @ nxt)
        = bindE (Some (byteAt nxt 0)) (\<lambda>c'.
            if c' = CHR '','' then bindE (Some (consumeSeparator nxt)) (arrayLoop n (k + 1))
            else arrayLoop n (k + 1) nxt)"
      using True hd(2) by (subst arrayLoop.simps) (simp add: b0 cv ws2)
    have arith: "nat (n - k) = Suc (nat (n - (k + 1)))" using True by simp
    have "arrayLoop n k (elemsFrom (e # es) @ CHR '']'' # rest)
        = arrayLoop n (k + 1) (elemsFrom es @ CHR '']'' # rest)"
    proof (cases es)
      case Nil
      then show ?thesis unfolding st step by (simp add: nxt_def)
    next
      case (Cons e' es')
      obtain a' v' b' where e': "e' = Elem a' v' b'" by (cases e')
      from wf(4) Cons e' have wa': "whitespace a'" "wfValue v'" by auto
      obtain c1 cs1 where hd1: "render v' = c1 # cs1" "notSpace c1"
        using render_head[OF wa'(2)] by metis
      have nxt: "nxt = CHR '','' # a' @ elemsFrom es @ CHR '']'' # rest"
        by (simp add: nxt_def sepTail_def Cons e' commas_sepTail)
      have sep2: "consumeSeparator (CHR '','' # a' @ elemsFrom es @ CHR '']'' # rest)
          = Ret (elemsFrom es @ CHR '']'' # rest)"
        using wa' hd1 by (intro consumeSeparator_Cons) (auto simp: Cons e')
      show ?thesis unfolding st step by (simp add: nxt sep2)
    qed
    also have "\<dots> = Some (Ret (k + 1 + int (min (nat (n - (k + 1))) (length es)),
                  elemsFrom (drop (nat (n - (k + 1))) es) @ CHR '']'' # rest))"
      using True by (intro Cons(1)[OF wf(4)]) simp
    finally show ?thesis by (simp add: arith)
  qed
qed

subsection \<open>\<^verbatim>\<open>locateAccessor\<close> on an object, an array, \<^verbatim>\<open>null\<close> and a scalar\<close>

lemma locateAccessor_short:
  "length (consumeWhitespace json) < length acc \<Longrightarrow> locateAccessor json acc = Some (Ret (- 1))"
  by (simp add: locateAccessor_def Let_def)

lemma locateAccessor_object:
  assumes "whitespace w" "wfValue (JObject w0 ms)"
    and "length acc \<le> length (render (JObject w0 ms) @ rest)"
  shows "locateAccessor (w @ render (JObject w0 ms) @ rest) acc
     = Some (Ret (int (length (w @ CHR ''{'' # w0 @ commas (map renderMember ms)))
                  - int (length (afterKey acc ms))))"
proof -
  define body where "body = commas (map renderMember ms)"
  have wf: "whitespace w0" "list_all wfMember ms" using assms(2) by auto
  have cw: "consumeWhitespace (w @ render (JObject w0 ms) @ rest) = render (JObject w0 ms) @ rest"
    using assms(1) by (intro consumeWhitespace_skip) (auto simp: notSpace_iff)
  have sep: "consumeSeparator (CHR ''{'' # w0 @ body @ CHR ''}'' # rest)
      = Ret (keyed ms @ CHR ''}'' # rest)"
  proof (cases ms rule: keyed.cases)
    case 1
    then show ?thesis using wf(1) consumeSeparator_Cons[of w0 "CHR ''}'' # rest"]
      by (simp add: body_def notSpace_iff)
  next
    case (2 a k b c v d ms')
    with wf(2) have "whitespace (w0 @ a)" using wf(1) by simp
    then have "consumeSeparator (CHR ''{'' # (w0 @ a) @ keyed ms @ CHR ''}'' # rest)
        = Ret (keyed ms @ CHR ''}'' # rest)"
      by (rule consumeSeparator_Cons) (simp add: 2 notSpace_iff)
    then show ?thesis by (simp add: body_def 2 commas_sepTail)
  qed
  have "locateAccessor (w @ render (JObject w0 ms) @ rest) acc
      = objectLoop (int (length (w @ render (JObject w0 ms) @ rest))) acc (keyed ms @ CHR ''}'' # rest)"
    using assms(3) sep unfolding locateAccessor_def Let_def cw by (simp add: body_def)
  also have "\<dots> = Some (Ret (int (length (w @ render (JObject w0 ms) @ rest))
                  - int (length (afterKey acc ms @ CHR ''}'' # rest))))"
    using wf(2) by (rule objectLoop_members)
  finally show ?thesis by simp
qed

lemma locateAccessor_array:
  assumes "whitespace w" "wfValue (JArray w0 es)"
    and "length acc \<le> length (render (JArray w0 es) @ rest)"
    and "Atoi acc = Some n" "0 \<le> n"
  shows "locateAccessor (w @ render (JArray w0 es) @ rest) acc
     = Some (Ret (if n > int (length es) then - 1
                  else int (length (w @ CHR ''['' # w0 @ commas (map renderElem es)))
                       - int (length (elemsFrom (drop (nat n) es)))))"
proof -
  define body where "body = commas (map renderElem es)"
  have wf: "whitespace w0" "list_all wfElem es" using assms(2) by auto
  have cw: "consumeWhitespace (w @ render (JArray w0 es) @ rest) = render (JArray w0 es) @ rest"
    using assms(1) by (intro consumeWhitespace_skip) (auto simp: notSpace_iff)
  have sep: "consumeSeparator (CHR ''['' # w0 @ body @ CHR '']'' # rest)
      = Ret (elemsFrom es @ CHR '']'' # rest)"
  proof (cases es rule: elemsFrom.cases)
    case 1
    then show ?thesis using wf(1) consumeSeparator_Cons[of w0 "CHR '']'' # rest"]
      by (simp add: body_def notSpace_iff)
  next
    case (2 a v b es')
    with wf(2) have v: "wfValue v" and wa: "whitespace (w0 @ a)" using wf(1) by auto
    obtain c0 cs where hd: "render v = c0 # cs" "notSpace c0"
      using render_head[OF v] by metis
    from wa have "consumeSeparator (CHR ''['' # (w0 @ a) @ elemsFrom es @ CHR '']'' # rest)
        = Ret (elemsFrom es @ CHR '']'' # rest)"
      by (rule consumeSeparator_Cons) (simp add: 2 hd)
    then show ?thesis by (simp add: body_def 2 commas_sepTail)
  qed
  have loop: "arrayLoop n 0 (elemsFrom es @ CHR '']'' # rest)
      = Some (Ret (0 + int (min (nat (n - 0)) (length es)),
                   elemsFrom (drop (nat (n - 0)) es) @ CHR '']'' # rest))"
    using wf(2) assms(5) by (rule arrayLoop_elems)
  show ?thesis
    using assms(3,4,5) sep loop unfolding locateAccessor_def Let_def cw
    by (auto simp: body_def min_def)
qed

lemma locateAccessor_null:
  assumes "whitespace w" "Atoi acc = Some 0" "length acc \<le> 4 + length rest"
  shows "locateAccessor (w @ ''null'' @ rest) acc = Some (Ret (int (length w) + 3))"
proof -
  have cw: "consumeWhitespace (w @ ''null'' @ rest) = ''null'' @ rest"
    using assms(1) by (intro consumeWhitespace_skip) (auto simp: notSpace_iff)
  show ?thesis using assms(2,3) unfolding locateAccessor_def Let_def cw
    by (simp add: sliceFrom_def)
qed

lemma locateAccessor_other:
  assumes "consumeWhitespace json = c # cs" "c \<noteq> CHR ''{''" "c \<noteq> CHR ''[''" "c \<noteq> CHR ''n''"
  shows "locateAccessor json acc = Some (Ret (- 1))"
  using assms by (simp add: locateAccessor_def Let_def)

lemma locateAccessor_bad_index:
  assumes "consumeWhitespace json = c # cs" "c = CHR ''['' \<or> c = CHR ''n''" "Atoi acc = None"
  shows "locateAccessor json acc = Some (Ret (- 1))"
  using assms by (auto simp: locateAccessor_def Let_def)

lemma afterKey_found:
  "findMember acc ms = Some (p, v, q) \<Longrightarrow> afterKey acc ms = render v @ q"
  by (induction acc ms arbitrary: p rule: findMember.induct) (auto split: if_splits)

lemma afterKey_absent: "findMember acc ms = None \<Longrightarrow> afterKey acc ms = []"
  by (induction acc ms rule: findMember.induct) (auto split: if_splits)

lemma elemsFrom_nth:
  "nthElem n es = Some (p, v, q) \<Longrightarrow> elemsFrom (drop n es) = render v @ q"
  by (induction n es arbitrary: p rule: nthElem.induct) auto

lemma elemsFrom_end: "length es \<le> n \<Longrightarrow> elemsFrom (drop n es) = []"
  by simp

section \<open>The path loop\<close>

text \<open>
  \<open>reaches json path j i\<close>: the loop of \<^verbatim>\<open>rewritePath\<close> arrives at its head with the values
  \<^verbatim>\<open>j\<close> and \<^verbatim>\<open>i\<close>. One step is one iteration for an accessor that is followed by a dot:
  the locator finds it in \<^verbatim>\<open>json[i:]\<close> at the offset \<open>k\<close>, and the byte that the loop
  then inspects, \<^verbatim>\<open>json[k]\<close>, is none of \<^verbatim>\<open>]\<close>, \<^verbatim>\<open>}\<close> and \<^verbatim>\<open>l\<close>.
\<close>

inductive reaches :: "bytes \<Rightarrow> bytes \<Rightarrow> int \<Rightarrow> int \<Rightarrow> bool" for json path where
  start: "reaches json path 0 0"
| step: "reaches json path j i \<Longrightarrow> 0 \<le> j \<Longrightarrow> 0 \<le> i \<Longrightarrow> i \<le> int (length json) \<Longrightarrow>
         drop (nat j) path = acc @ CHR ''.'' # others \<Longrightarrow> CHR ''.'' \<notin> set acc \<Longrightarrow>
         locateAccessor (drop (nat i) json) acc = Some (Ret k) \<Longrightarrow>
         0 \<le> k \<Longrightarrow> k < int (length json) \<Longrightarrow>
         json ! nat k \<noteq> CHR '']'' \<Longrightarrow> json ! nat k \<noteq> CHR ''}'' \<Longrightarrow> json ! nat k \<noteq> CHR ''l'' \<Longrightarrow>
         reaches json path (j + int (length acc) + 1) (i + k)"

lemma IndexByte_absent: "b \<notin> set s \<Longrightarrow> IndexByte s b = - 1"
proof -
  have "\<And>i. b \<notin> set s \<Longrightarrow> indexFrom (\<lambda>c. c = b) s i = - 1"
    by (induction s) auto
  then show "b \<notin> set s \<Longrightarrow> IndexByte s b = - 1" by (simp add: IndexByte_def)
qed

lemma IndexByte_first: "b \<notin> set s \<Longrightarrow> IndexByte (s @ b # t) b = int (length s)"
proof -
  assume "b \<notin> set s"
  then have "\<forall>c \<in> set s. \<not> c = b" by auto
  then have "indexFrom (\<lambda>c. c = b) (s @ b # t) 0 = indexFrom (\<lambda>c. c = b) (b # t) (0 + int (length s))"
    by (rule indexFrom_skip)
  then show ?thesis by (simp add: IndexByte_def)
qed

lemma drop_is_append:
  "drop n xs = ys @ z # zs \<Longrightarrow> take (length ys) (drop n xs) = ys \<and> n + length ys \<le> length xs"
proof -
  assume a: "drop n xs = ys @ z # zs"
  then have "length (drop n xs) = length ys + Suc (length zs)" by simp
  then have "n + length ys \<le> length xs" by simp
  with a show ?thesis by simp
qed

lemma pathLoop_step:
  assumes "0 \<le> j" "0 \<le> i" "i \<le> int (length json)"
    and p: "drop (nat j) path = acc @ CHR ''.'' # others" and nd: "CHR ''.'' \<notin> set acc"
    and loc: "locateAccessor (drop (nat i) json) acc = Some (Ret k)"
    and k: "0 \<le> k" "k < int (length json)"
  shows "pathLoop json path j i =
     (if json ! nat k = CHR '']'' \<or> json ! nat k = CHR ''}'' \<or> json ! nat k = CHR ''l''
      then Some (Ret Unmodified)
      else pathLoop json path (j + int (length acc) + 1) (i + k))"
proof -
  have jl: "nat j + length acc \<le> length path" and tk: "take (length acc) (drop (nat j) path) = acc"
    using drop_is_append[OF p] by auto
  have pf: "pathFrom path j = Ret (acc @ CHR ''.'' # others)"
    using assms(1) jl p by (simp add: pathFrom_def)
  have ib: "IndexByte (acc @ CHR ''.'' # others) (CHR ''.'') = int (length acc)"
    using nd by (rule IndexByte_first)
  have pb: "pathBetween path j (j + int (length acc)) = Ret acc"
    using assms(1) jl tk by (simp add: pathBetween_def)
  have sf: "sliceFrom json i = Ret (drop (nat i) json)"
    using assms(2,3) by (simp add: sliceFrom_def)
  have ba: "byteAt json k = Ret (json ! nat k)" using k by (simp add: byteAt_def)
  show ?thesis
    using k(1) by (subst pathLoop.simps) (simp add: pf ib pb sf loc ba Let_def)
qed

lemma pathLoop_step_notfound:
  assumes "0 \<le> j" "0 \<le> i" "i \<le> int (length json)"
    and p: "drop (nat j) path = acc @ CHR ''.'' # others" and nd: "CHR ''.'' \<notin> set acc"
    and loc: "locateAccessor (drop (nat i) json) acc = Some (Ret (- 1))"
  shows "pathLoop json path j i = Some (Ret Unmodified)"
proof -
  have jl: "nat j + length acc \<le> length path" and tk: "take (length acc) (drop (nat j) path) = acc"
    using drop_is_append[OF p] by auto
  have pf: "pathFrom path j = Ret (acc @ CHR ''.'' # others)"
    using assms(1) jl p by (simp add: pathFrom_def)
  have ib: "IndexByte (acc @ CHR ''.'' # others) (CHR ''.'') = int (length acc)"
    using nd by (rule IndexByte_first)
  have pb: "pathBetween path j (j + int (length acc)) = Ret acc"
    using assms(1) jl tk by (simp add: pathBetween_def)
  have sf: "sliceFrom json i = Ret (drop (nat i) json)"
    using assms(2,3) by (simp add: sliceFrom_def)
  show ?thesis
    by (subst pathLoop.simps) (simp add: pf ib pb sf loc Let_def)
qed

lemma pathLoop_last:
  assumes "0 \<le> j" "0 \<le> i" "i \<le> int (length json)" "j \<le> int (length path)"
    and p: "drop (nat j) path = acc" and nd: "CHR ''.'' \<notin> set acc" and ne: "acc \<noteq> []"
    and loc: "locateAccessor (drop (nat i) json) acc = Some (Ret k)"
    and k: "0 \<le> k" "k < int (length json)"
  shows "pathLoop json path j i = Some (Ret (Located (i + k) acc))"
proof -
  have pf: "pathFrom path j = Ret acc"
    using assms(1,4) p by (simp add: pathFrom_def)
  have ib: "IndexByte acc (CHR ''.'') = - 1"
    using nd by (rule IndexByte_absent)
  have "length acc = length path - nat j" using p by (metis length_drop)
  then have pb: "pathBetween path j (j + int (length acc)) = Ret acc"
    using assms(1,4) p by (simp add: pathBetween_def)
  have sf: "sliceFrom json i = Ret (drop (nat i) json)"
    using assms(2,3) by (simp add: sliceFrom_def)
  have ba: "byteAt json k = Ret (json ! nat k)" using k by (simp add: byteAt_def)
  show ?thesis
    using k(1) ne by (subst pathLoop.simps) (simp add: pf ib pb sf loc ba Let_def)
qed

lemma pathLoop_last_notfound:
  assumes "0 \<le> j" "0 \<le> i" "i \<le> int (length json)" "j \<le> int (length path)"
    and p: "drop (nat j) path = acc" and nd: "CHR ''.'' \<notin> set acc"
    and loc: "locateAccessor (drop (nat i) json) acc = Some (Ret (- 1))"
  shows "pathLoop json path j i = Some (Ret Unmodified)"
proof -
  have pf: "pathFrom path j = Ret acc"
    using assms(1,4) p by (simp add: pathFrom_def)
  have ib: "IndexByte acc (CHR ''.'') = - 1"
    using nd by (rule IndexByte_absent)
  have "length acc = length path - nat j" using p by (metis length_drop)
  then have pb: "pathBetween path j (j + int (length acc)) = Ret acc"
    using assms(1,4) p by (simp add: pathBetween_def)
  have sf: "sliceFrom json i = Ret (drop (nat i) json)"
    using assms(2,3) by (simp add: sliceFrom_def)
  show ?thesis
    by (subst pathLoop.simps) (simp add: pf ib pb sf loc Let_def)
qed

lemma reaches_bounds: "reaches json path j i \<Longrightarrow> 0 \<le> j \<and> 0 \<le> i"
  by (induction rule: reaches.induct) auto

lemma reaches_pathLoop:
  "reaches json path j i \<Longrightarrow> pathLoop json path 0 0 = pathLoop json path j i"
proof (induction rule: reaches.induct)
  case start
  show ?case by simp
next
  case (step j i acc others k)
  have "pathLoop json path j i = pathLoop json path (j + int (length acc) + 1) (i + k)"
    using step(2-12) by (subst pathLoop_step[of j i json path acc others k]) auto
  with step(13) show ?case by simp
qed

section \<open>The splice\<close>

lemma byteAt_append [simp]: "byteAt (A @ c # B) (int (length A)) = Ret c"
  by (simp add: byteAt_def)

lemma sliceFrom_append [simp]: "sliceFrom (A @ B) (int (length A)) = Ret B"
  by (simp add: sliceFrom_def)

lemma sliceTo_append [simp]: "sliceTo (A @ B) (int (length A)) = Ret A"
  by (simp add: sliceTo_def)

lemma render_first:
  assumes "wfValue v"
  obtains c cs where "render v = c # cs" "c \<noteq> CHR ''l''" "c \<noteq> CHR '']''" "c \<noteq> CHR ''}''"
    "c = CHR ''n'' \<longleftrightarrow> v = JNull"
proof (cases v)
  case (JNumber s)
  with assms obtain c cs where s: "s = c # cs" and c: "numChar c" by (cases s) auto
  from c have "c \<noteq> CHR ''l''" "c \<noteq> CHR '']''" "c \<noteq> CHR ''}''" "c \<noteq> CHR ''n''"
    by (auto simp: numChar_def)
  then show ?thesis using that JNumber s by simp
qed (auto intro: that)

text \<open>The value found at the cursor is replaced: the allocating branch.\<close>

lemma replaceAt_found:
  assumes "wfValue v" "followOk v B"
  shows "replaceAt (A @ render v @ B) (int (length A)) lastAcc val False =
     Some (Ret \<lparr>returned = A @ (if v = JNull then CHR ''['' # val @ '']'' else val) @ B,
                 buffer = A @ render v @ B, shared = False\<rparr>)"
proof -
  obtain c cs where hd: "render v = c # cs" "c \<noteq> CHR ''l''" "c \<noteq> CHR '']''" "c \<noteq> CHR ''}''"
    "c = CHR ''n'' \<longleftrightarrow> v = JNull"
    using render_first[OF assms(1)] by metis
  have b: "byteAt (A @ render v @ B) (int (length A)) = Ret c" by (simp add: hd(1))
  have cv: "consumeValue (render v @ B) = Some (Ret B)"
    using assms by (rule consumeValue_render)
  show ?thesis
    using hd(2-5) by (simp add: replaceAt_def b cv spliceNew_def Let_def)
qed

text \<open>The in-place branch.\<close>

lemma padLoop_fill:
  "0 \<le> i \<Longrightarrow> 0 \<le> j \<Longrightarrow> j \<le> d \<Longrightarrow> nat (i + d) \<le> length json \<Longrightarrow>
   padLoop json i j d =
     Ret (take (nat (i + j)) json @ replicate (nat (d - j)) (CHR '' '') @ drop (nat (i + d)) json)"
proof (induction json i j d rule: padLoop.induct)
  case (1 json i j d)
  show ?case
  proof (cases "j < d")
    case False
    with 1(4) have "j = d" by simp
    then show ?thesis by (subst padLoop.simps) simp
  next
    case True
    have st: "store json (i + j) (CHR '' '') = Ret (json[nat (i + j) := CHR '' ''])"
      using 1(2,3,5) True by (simp add: store_def)
    have ih: "padLoop (json[nat (i + j) := CHR '' '']) i (j + 1) d =
        Ret (take (nat (i + (j + 1))) (json[nat (i + j) := CHR '' ''])
             @ replicate (nat (d - (j + 1))) (CHR '' '')
             @ drop (nat (i + d)) (json[nat (i + j) := CHR '' '']))"
      using True 1(2,3,5) by (intro 1(1)[OF True st]) auto
    have n1: "nat (i + (j + 1)) = Suc (nat (i + j))" using 1(2,3) by simp
    have lt: "nat (i + j) < length json" using 1(2,3,5) True by simp
    have t: "take (Suc (nat (i + j))) (json[nat (i + j) := CHR '' ''])
        = take (nat (i + j)) json @ [CHR '' '']"
      using lt by (simp add: take_Suc_conv_app_nth)
    have d: "drop (nat (i + d)) (json[nat (i + j) := CHR '' '']) = drop (nat (i + d)) json"
      using True 1(2,3) by simp
    have "nat (d - j) = Suc (nat (d - (j + 1)))" using True by simp
    then have r: "replicate (nat (d - j)) (CHR '' '') = CHR '' '' # replicate (nat (d - (j + 1))) (CHR '' '')"
      by simp
    show ?thesis
      using True by (subst padLoop.simps) (simp add: st ih n1 t d r)
  qed
qed

lemma copyAt_fits:
  "length val \<le> length old \<Longrightarrow>
   copyAt (A @ old @ B) (int (length A)) val = Ret (A @ val @ drop (length val) old @ B)"
proof -
  assume a: "length val \<le> length old"
  then have "min (length (old @ B)) (length val) = length val" by simp
  then show ?thesis using a by (simp add: copyAt_def Let_def del: length_append)
qed

lemma rewriteInPlace_plain:
  assumes "length val \<le> length old"
  shows "rewriteInPlace (A @ old @ B) (int (length A)) val False (int (length old)) (int (length val))
     = Ret (A @ val @ replicate (length old - length val) (CHR '' '') @ B)"
proof -
  have "padLoop (A @ val @ drop (length val) old @ B) (int (length A) + int (length val)) 0
          (int (length old) - int (length val))
      = Ret (take (nat (int (length A) + int (length val) + 0)) (A @ val @ drop (length val) old @ B)
             @ replicate (nat (int (length old) - int (length val) - 0)) (CHR '' '')
             @ drop (nat (int (length A) + int (length val) + (int (length old) - int (length val))))
                 (A @ val @ drop (length val) old @ B))"
    using assms by (intro padLoop_fill) auto
  then show ?thesis
    using assms by (simp add: rewriteInPlace_def copyAt_fits nat_add_distrib nat_diff_distrib')
qed

lemma replaceAt_found_in_place:
  assumes "wfValue v" "followOk v B" "length val \<le> length (render v)"
  shows "replaceAt (A @ render v @ B) (int (length A)) lastAcc val True =
     Some (Ret \<lparr>returned = A @ val @ replicate (length (render v) - length val) (CHR '' '') @ B,
                 buffer = A @ val @ replicate (length (render v) - length val) (CHR '' '') @ B,
                 shared = True\<rparr>)"
proof -
  obtain c cs where hd: "render v = c # cs" "c \<noteq> CHR ''l''" "c \<noteq> CHR '']''" "c \<noteq> CHR ''}''"
    using render_first[OF assms(1)] by metis
  have b: "byteAt (A @ render v @ B) (int (length A)) = Ret c" by (simp add: hd(1))
  have cv: "consumeValue (render v @ B) = Some (Ret B)"
    using assms(1,2) by (rule consumeValue_render)
  have ip: "rewriteInPlace (A @ render v @ B) (int (length A)) val False
      (int (length (render v))) (int (length val))
     = Ret (A @ val @ replicate (length (render v) - length val) (CHR '' '') @ B)"
    using assms(3) by (rule rewriteInPlace_plain)
  show ?thesis
    using hd(2-4) assms(3) ip by (simp add: replaceAt_def b cv Let_def)
qed

lemma replaceAt_found_too_long:
  assumes "wfValue v" "followOk v B" "length (render v) < length val"
  shows "replaceAt (A @ render v @ B) (int (length A)) lastAcc val True =
     replaceAt (A @ render v @ B) (int (length A)) lastAcc val False"
proof -
  obtain c cs where hd: "render v = c # cs" "c \<noteq> CHR ''l''" "c \<noteq> CHR '']''" "c \<noteq> CHR ''}''"
    using render_first[OF assms(1)] by metis
  have b: "byteAt (A @ render v @ B) (int (length A)) = Ret c" by (simp add: hd(1))
  have cv: "consumeValue (render v @ B) = Some (Ret B)"
    using assms(1,2) by (rule consumeValue_render)
  show ?thesis
    using hd(2-4) assms(3) by (simp add: replaceAt_def b cv Let_def)
qed

text \<open>Appending at a closing delimiter, and the byte \<^verbatim>\<open>prevChar\<close> finds in front of it.\<close>

lemma prevCharFrom_skip:
  "whitespace d \<Longrightarrow> notSpace c \<Longrightarrow>
   prevCharFrom (A @ c # d @ B) i (length (A @ c # d)) = Ret c"
proof (induction d arbitrary: B rule: rev_induct)
  case Nil
  have "prevCharFrom (A @ c # B) i (Suc (length A)) = Ret c"
    using Nil(2) by simp
  then show ?case by simp
next
  case (snoc x d)
  have l: "length (A @ c # d @ [x]) = Suc (length (A @ c # d))" by simp
  have b: "byteAt (A @ c # d @ x # B) (int (length (A @ c # d))) = Ret x"
    using byteAt_append[of "A @ c # d" x B] by simp
  have "prevCharFrom (A @ c # d @ x # B) i (Suc (length (A @ c # d)))
      = prevCharFrom (A @ c # d @ x # B) i (length (A @ c # d))"
    using snoc(2) by (simp add: b del: length_append)
  moreover have "prevCharFrom (A @ c # d @ x # B) i (length (A @ c # d)) = Ret c"
    using snoc(1)[of "x # B"] snoc(2,3) by simp
  ultimately show ?case by (simp del: length_append add: l)
qed

lemma prevChar_skip:
  "whitespace d \<Longrightarrow> notSpace c \<Longrightarrow>
   prevChar (A @ c # d @ B) (int (length (A @ c # d))) = Ret c"
  unfolding prevChar_def nat_int by (rule prevCharFrom_skip)

lemma consumeValue_delim:
  "consumeValue (CHR ''}'' # B) = Some (Ret (CHR ''}'' # B))"
  "consumeValue (CHR '']'' # B) = Some (Ret (CHR '']'' # B))"
  "consumeValue (CHR ''l'' # B) = Some (Ret (CHR ''l'' # B))"
  by (simp_all add: consumeValue_def)


lemma replaceAt_append_object:
  assumes "whitespace d" "notSpace c" "val \<noteq> [] \<or> \<not> inPlace"
  shows "replaceAt (A @ c # d @ CHR ''}'' # B) (int (length (A @ c # d))) lastAcc val inPlace =
     Some (Ret \<lparr>returned = A @ c # d @ (if c \<noteq> CHR ''{'' then '','' else [])
                             @ CHR 0x22 # lastAcc @ CHR 0x22 # CHR '':'' # val @ CHR ''}'' # B,
                 buffer = A @ c # d @ CHR ''}'' # B, shared = False\<rparr>)"
proof -
  define P where "P = A @ c # d"
  have j: "A @ c # d @ CHR ''}'' # B = P @ CHR ''}'' # B" by (simp add: P_def)
  have pc: "prevChar (P @ CHR ''}'' # B) (int (length P)) = Ret c"
    using prevChar_skip[OF assms(1,2), of A "CHR ''}'' # B"] by (simp add: P_def)
  have cv: "consumeValue (CHR ''}'' # B) = Some (Ret (CHR ''}'' # B))"
    by (rule consumeValue_delim)
  have "replaceAt (P @ CHR ''}'' # B) (int (length P)) lastAcc val inPlace =
     Some (Ret \<lparr>returned = P @ (if c \<noteq> CHR ''{'' then '','' else [])
                             @ CHR 0x22 # lastAcc @ CHR 0x22 # CHR '':'' # val @ CHR ''}'' # B,
                 buffer = P @ CHR ''}'' # B, shared = False\<rparr>)"
  proof (cases inPlace)
    case True
    with assms(3) have "val \<noteq> []" by simp
    then show ?thesis using True by (simp add: replaceAt_def cv spliceNew_def Let_def pc)
  next
    case False
    then show ?thesis by (simp add: replaceAt_def cv spliceNew_def Let_def pc)
  qed
  then show ?thesis unfolding j by (simp add: P_def)
qed

lemma replaceAt_append_array:
  assumes "whitespace d" "notSpace c" "val \<noteq> [] \<or> \<not> inPlace"
  shows "replaceAt (A @ c # d @ CHR '']'' # B) (int (length (A @ c # d))) lastAcc val inPlace =
     Some (Ret \<lparr>returned = A @ c # d @ (if c \<noteq> CHR ''['' then '','' else [])
                             @ val @ CHR '']'' # B,
                 buffer = A @ c # d @ CHR '']'' # B, shared = False\<rparr>)"
proof -
  define P where "P = A @ c # d"
  have j: "A @ c # d @ CHR '']'' # B = P @ CHR '']'' # B" by (simp add: P_def)
  have pc: "prevChar (P @ CHR '']'' # B) (int (length P)) = Ret c"
    using prevChar_skip[OF assms(1,2), of A "CHR '']'' # B"] by (simp add: P_def)
  have cv: "consumeValue (CHR '']'' # B) = Some (Ret (CHR '']'' # B))"
    by (rule consumeValue_delim)
  have "replaceAt (P @ CHR '']'' # B) (int (length P)) lastAcc val inPlace =
     Some (Ret \<lparr>returned = P @ (if c \<noteq> CHR ''['' then '','' else [])
                             @ val @ CHR '']'' # B,
                 buffer = P @ CHR '']'' # B, shared = False\<rparr>)"
  proof (cases inPlace)
    case True
    with assms(3) have "val \<noteq> []" by simp
    then show ?thesis using True by (simp add: replaceAt_def cv spliceNew_def Let_def pc)
  next
    case False
    then show ?thesis by (simp add: replaceAt_def cv spliceNew_def Let_def pc)
  qed
  then show ?thesis unfolding j by (simp add: P_def)
qed

text \<open>The cursor on the last byte of \<^verbatim>\<open>null\<close>, with the accessor \<^verbatim>\<open>0\<close> and with another one.\<close>

lemma replaceAt_null:
  "replaceAt (A @ ''null'' @ B) (int (length A) + 3) ''0'' val False =
     Some (Ret \<lparr>returned = A @ CHR ''['' # val @ CHR '']'' # B,
                 buffer = A @ ''null'' @ B, shared = False\<rparr>)"
proof -
  have b3: "byteAt (A @ ''null'' @ B) (int (length A) + 3) = Ret (CHR ''l'')"
    using byteAt_append[of "A @ ''nul''" "CHR ''l''" B] by (simp add: add.commute)
  have b0: "byteAt (A @ ''null'' @ B) (int (length A)) = Ret (CHR ''n'')"
    using byteAt_append[of A "CHR ''n''" "''ull'' @ B"] by simp
  have sf: "sliceFrom (A @ ''null'' @ B) (int (length A)) = Ret (''null'' @ B)"
    by (rule sliceFrom_append)
  have st: "sliceTo (A @ ''null'' @ B) (int (length A)) = Ret A"
    by (rule sliceTo_append)
  have cv: "consumeValue (''null'' @ B) = Some (Ret B)"
    by (simp add: consumeValue_def sliceFrom_def)
  show ?thesis
    by (simp add: replaceAt_def b3 b0 sf st cv spliceNew_def Let_def del: append.simps)
qed

lemma replaceAt_null_other:
  assumes "lastAcc \<noteq> ''0''"
  shows "replaceAt (A @ ''null'' @ B) (int (length A) + 3) lastAcc val False =
     Some (Ret \<lparr>returned = A @ ''nul'' @ val @ CHR ''l'' # B,
                 buffer = A @ ''null'' @ B, shared = False\<rparr>)"
proof -
  define P where "P = A @ ''nul''"
  have j: "A @ ''null'' @ B = P @ CHR ''l'' # B" by (simp add: P_def)
  have l: "int (length A) + 3 = int (length P)" by (simp add: P_def)
  have cv: "consumeValue (CHR ''l'' # B) = Some (Ret (CHR ''l'' # B))"
    by (rule consumeValue_delim)
  have "replaceAt (P @ CHR ''l'' # B) (int (length P)) lastAcc val False =
     Some (Ret \<lparr>returned = P @ val @ CHR ''l'' # B, buffer = P @ CHR ''l'' # B, shared = False\<rparr>)"
    using assms by (simp add: replaceAt_def cv spliceNew_def Let_def)
  then show ?thesis unfolding j l by (simp add: P_def)
qed

section \<open>From the loop to the splice\<close>

definition unchanged :: "bytes \<Rightarrow> result" where
  "unchanged json = \<lparr>returned = json, buffer = json, shared = True\<rparr>"

lemma rewritePath_located:
  assumes "reaches json (pfx @ acc) (int (length pfx)) i" "i \<le> int (length json)"
    and "acc \<noteq> []" "CHR ''.'' \<notin> set acc"
    and "locateAccessor (drop (nat i) json) acc = Some (Ret k)" "0 \<le> k" "k < int (length json)"
  shows "rewritePath json cap (pfx @ acc) val ip = replaceAt json (i + k) acc val ip"
proof -
  have i0: "0 \<le> i" using reaches_bounds[OF assms(1)] by simp
  have "pathLoop json (pfx @ acc) 0 0 = pathLoop json (pfx @ acc) (int (length pfx)) i"
    using assms(1) by (rule reaches_pathLoop)
  also have "\<dots> = Some (Ret (Located (i + k) acc))"
    using i0 assms(2-7) by (intro pathLoop_last) auto
  finally show ?thesis using assms(3) by (simp add: rewritePath_def)
qed

lemma rewritePath_notfound:
  assumes "reaches json (pfx @ acc) (int (length pfx)) i" "i \<le> int (length json)"
    and "pfx @ acc \<noteq> []" "CHR ''.'' \<notin> set acc"
    and "locateAccessor (drop (nat i) json) acc = Some (Ret (- 1))"
  shows "rewritePath json cap (pfx @ acc) val ip = Some (Ret (unchanged json))"
proof -
  have i0: "0 \<le> i" using reaches_bounds[OF assms(1)] by simp
  have "pathLoop json (pfx @ acc) 0 0 = pathLoop json (pfx @ acc) (int (length pfx)) i"
    using assms(1) by (rule reaches_pathLoop)
  also have "\<dots> = Some (Ret Unmodified)"
    using i0 assms(2-5) by (intro pathLoop_last_notfound[where acc = acc]) auto
  finally have "pathLoop json (pfx @ acc) 0 0 = Some (Ret Unmodified)" .
  moreover have "(pfx @ acc = []) = False" using assms(3) by simp
  ultimately show ?thesis unfolding rewritePath_def unchanged_def by (simp only: if_False bindE.simps located.case)
qed

subsection \<open>What stands behind a member and an element, and in front of the closing delimiter\<close>

lemma followOk_ws: "whitespace d \<Longrightarrow> t \<noteq> [] \<Longrightarrow> \<not> numChar (hd t) \<Longrightarrow> followOk v (d @ t)"
  by (cases d) (auto simp: followOk_def numChar_def notSpace_iff split: jvalue.splits)

lemma sepTail_follow: "\<not> numChar (hd (sepTail xs @ c # B)) \<or> numChar c"
  by (auto simp: sepTail_def numChar_def)

lemma findMember_follow:
  assumes "findMember acc ms = Some (p, v, q)" "list_all wfMember ms" "\<not> numChar c"
  shows "followOk v (q @ c # B)"
  using assms
proof (induction acc ms arbitrary: p rule: findMember.induct)
  case (1 acc)
  then show ?case by simp
next
  case (2 acc a k b c' v' d ms)
  show ?case
  proof (cases "k = acc")
    case True
    with 2(2) have q: "q = d @ sepTail (map renderMember ms)" and v: "v = v'" by auto
    have "followOk v (d @ (sepTail (map renderMember ms) @ c # B))"
      using 2(3,4) sepTail_follow[of "map renderMember ms" c B]
      by (intro followOk_ws) (auto simp: sepTail_def)
    then show ?thesis by (simp add: q)
  next
    case False
    with 2(2) obtain p' where "findMember acc ms = Some (p', v, q)" by auto
    then show ?thesis using 2(1)[OF False] 2(3,4) by auto
  qed
qed

lemma nthElem_follow:
  assumes "nthElem n es = Some (p, v, q)" "list_all wfElem es" "\<not> numChar c"
  shows "followOk v (q @ c # B)"
  using assms
proof (induction n es arbitrary: p rule: nthElem.induct)
  case (1 n)
  then show ?case by simp
next
  case (2 a v' b es)
  then have q: "q = b @ sepTail (map renderElem es)" and v: "v = v'" by auto
  have "followOk v (b @ (sepTail (map renderElem es) @ c # B))"
    using 2(2,3) sepTail_follow[of "map renderElem es" c B]
    by (intro followOk_ws) (auto simp: sepTail_def)
  then show ?case by (simp add: q)
next
  case (3 n e es)
  from 3(2) obtain p' where "nthElem n es = Some (p', v, q)" by auto
  then show ?case using 3(1) 3(3,4) by auto
qed

lemma commas_snoc:
  "xs \<noteq> [] \<Longrightarrow> \<exists>pre. commas xs = pre @ last xs"
proof (induction xs rule: commas.induct)
  case 1
  then show ?case by simp
next
  case (2 x)
  show ?case by simp
next
  case (3 x y ys)
  then obtain pre where "commas (y # ys) = pre @ last (y # ys)" by auto
  then have "commas (x # y # ys) = (x @ CHR '','' # pre) @ last (x # y # ys)" by simp
  then show ?case by blast
qed

lemma members_end:
  assumes "list_all wfMember ms" "ms \<noteq> []"
  obtains body c d where "commas (map renderMember ms) = body @ c # d" "whitespace d"
    "notSpace c" "c \<noteq> CHR ''{''"
proof -
  obtain a k b c' v d where m: "last ms = Member a k b c' v d" by (cases "last ms")
  have "last ms \<in> set ms" using assms(2) by simp
  with assms(1) m have wf: "wfValue v" "whitespace d" by (auto simp: list_all_iff)
  obtain cs c where l: "render v = cs @ [c]" "notSpace c" "c \<noteq> CHR ''{''"
    using render_last[OF wf(1)] by metis
  obtain pre where "commas (map renderMember ms) = pre @ last (map renderMember ms)"
    using commas_snoc[of "map renderMember ms"] assms(2) by auto
  then have "commas (map renderMember ms)
      = (pre @ a @ CHR 0x22 # k @ CHR 0x22 # b @ CHR '':'' # c' @ cs) @ c # d"
    using assms(2) m l(1) by (simp add: last_map)
  then show ?thesis using that wf(2) l(2,3) by blast
qed

lemma elems_end:
  assumes "list_all wfElem es" "es \<noteq> []"
  obtains body c d where "commas (map renderElem es) = body @ c # d" "whitespace d"
    "notSpace c" "c \<noteq> CHR ''[''"
proof -
  obtain a v b where e: "last es = Elem a v b" by (cases "last es")
  have "last es \<in> set es" using assms(2) by simp
  with assms(1) e have wf: "wfValue v" "whitespace b" by (auto simp: list_all_iff)
  obtain cs c where l: "render v = cs @ [c]" "notSpace c" "c \<noteq> CHR ''[''"
    using render_last[OF wf(1)] by metis
  obtain pre where "commas (map renderElem es) = pre @ last (map renderElem es)"
    using commas_snoc[of "map renderElem es"] assms(2) by auto
  then have "commas (map renderElem es) = (pre @ a @ cs) @ c # b"
    using assms(2) e l(1) by (simp add: last_map)
  then show ?thesis using that wf(2) l(2,3) by blast
qed

subsection \<open>The terminal accessor on a well-formed object or array\<close>

lemma findMember_key_length: "findMember acc ms = Some (p, v, q) \<Longrightarrow> length acc \<le> length p"
  by (induction acc ms arbitrary: p rule: findMember.induct) (auto split: if_splits)

lemma drop_pre [simp]: "drop (nat (int (length pre))) (pre @ s) = s"
  by simp

lemma rewritePath_member:
  assumes "reaches json (pfx @ acc) (int (length pfx)) (int (length pre))"
    and "json = pre @ w @ render (JObject w0 ms) @ rest"
    and "whitespace w" "wfValue (JObject w0 ms)" "acc \<noteq> []" "CHR ''.'' \<notin> set acc"
    and "findMember acc ms = Some (p, v, q)"
  shows "rewritePath json cap (pfx @ acc) val ip
           = replaceAt ((pre @ w @ CHR ''{'' # w0 @ p) @ render v @ (q @ CHR ''}'' # rest))
               (int (length (pre @ w @ CHR ''{'' # w0 @ p))) acc val ip"
    and "json = (pre @ w @ CHR ''{'' # w0 @ p) @ render v @ (q @ CHR ''}'' # rest)"
    and "wfValue v" and "followOk v (q @ CHR ''}'' # rest)"
proof -
  have wf: "list_all wfMember ms" using assms(4) by simp
  have body: "commas (map renderMember ms) = p @ render v @ q"
    using assms(7) by (rule findMember_render)
  show j: "json = (pre @ w @ CHR ''{'' # w0 @ p) @ render v @ (q @ CHR ''}'' # rest)"
    by (simp add: assms(2) body)
  show v: "wfValue v" using assms(7) wf by (rule findMember_wf)
  show "followOk v (q @ CHR ''}'' # rest)"
    using assms(7) wf by (rule findMember_follow) (simp add: numChar_def)
  have guard: "length acc \<le> length (render (JObject w0 ms) @ rest)"
    using findMember_key_length[OF assms(7)] by (simp add: body)
  have "locateAccessor (w @ render (JObject w0 ms) @ rest) acc
      = Some (Ret (int (length (w @ CHR ''{'' # w0 @ commas (map renderMember ms)))
                   - int (length (afterKey acc ms))))"
    using assms(3,4) guard by (rule locateAccessor_object)
  then have loc: "locateAccessor (drop (nat (int (length pre))) json) acc
      = Some (Ret (int (length (w @ CHR ''{'' # w0 @ p))))"
    unfolding assms(2) by (simp add: body afterKey_found[OF assms(7)])
  obtain c cs where hd: "render v = c # cs" using render_head[OF v] by metis
  have "rewritePath json cap (pfx @ acc) val ip
      = replaceAt json (int (length pre) + int (length (w @ CHR ''{'' # w0 @ p))) acc val ip"
    using assms(1) _ assms(5,6) loc
    by (rule rewritePath_located) (simp_all add: assms(2) body hd)
  then show "rewritePath json cap (pfx @ acc) val ip
           = replaceAt ((pre @ w @ CHR ''{'' # w0 @ p) @ render v @ (q @ CHR ''}'' # rest))
               (int (length (pre @ w @ CHR ''{'' # w0 @ p))) acc val ip"
    unfolding j[symmetric] by (simp add: ac_simps)
qed

lemma rewritePath_no_member:
  assumes "reaches json (pfx @ acc) (int (length pfx)) (int (length pre))"
    and "json = pre @ w @ render (JObject w0 ms) @ rest"
    and "whitespace w" "wfValue (JObject w0 ms)" "acc \<noteq> []" "CHR ''.'' \<notin> set acc"
    and "findMember acc ms = None"
    and "length acc \<le> length (render (JObject w0 ms) @ rest)"
  shows "rewritePath json cap (pfx @ acc) val ip
           = replaceAt json (int (length (pre @ w @ CHR ''{'' # w0 @ commas (map renderMember ms))))
               acc val ip"
proof -
  have "locateAccessor (w @ render (JObject w0 ms) @ rest) acc
      = Some (Ret (int (length (w @ CHR ''{'' # w0 @ commas (map renderMember ms)))
                   - int (length (afterKey acc ms))))"
    using assms(3,4,8) by (rule locateAccessor_object)
  then have loc: "locateAccessor (drop (nat (int (length pre))) json) acc
      = Some (Ret (int (length (w @ CHR ''{'' # w0 @ commas (map renderMember ms)))))"
    unfolding assms(2) by (simp add: afterKey_absent[OF assms(7)])
  have "rewritePath json cap (pfx @ acc) val ip
      = replaceAt json (int (length pre)
          + int (length (w @ CHR ''{'' # w0 @ commas (map renderMember ms)))) acc val ip"
    using assms(1) _ assms(5,6) loc
    by (rule rewritePath_located) (simp_all add: assms(2))
  then show ?thesis by (simp add: ac_simps)
qed

lemma rewritePath_too_short:
  assumes "reaches json (pfx @ acc) (int (length pfx)) (int (length pre))"
    and "json = pre @ w @ s" "whitespace w" "s = [] \<or> notSpace (hd s)"
    and "pfx @ acc \<noteq> []" "CHR ''.'' \<notin> set acc"
    and "length s < length acc"
  shows "rewritePath json cap (pfx @ acc) val ip = Some (Ret (unchanged json))"
proof -
  have "consumeWhitespace (w @ s) = s" using assms(3,4) by (rule consumeWhitespace_skip)
  then have "locateAccessor (drop (nat (int (length pre))) json) acc = Some (Ret (- 1))"
    unfolding assms(2) using assms(7) by (simp add: locateAccessor_short)
  with assms(1) _ assms(5,6) show ?thesis
    by (rule rewritePath_notfound) (simp add: assms(2))
qed

fun memberKey :: "jmember \<Rightarrow> bytes" where
  "memberKey (Member a k b c v d) = k"

lemma findMember_None_iff: "findMember acc ms = None \<longleftrightarrow> acc \<notin> set (map memberKey ms)"
  by (induction acc ms rule: findMember.induct) auto

lemma rewritePath_append_key:
  assumes "reaches json (pfx @ acc) (int (length pfx)) (int (length pre))"
    and "json = pre @ w @ render (JObject w0 ms) @ rest"
    and "whitespace w" "wfValue (JObject w0 ms)" "acc \<noteq> []" "CHR ''.'' \<notin> set acc"
    and "findMember acc ms = None"
    and "length acc \<le> length (render (JObject w0 ms) @ rest)"
    and v: "val \<noteq> [] \<or> \<not> ip"
  shows "rewritePath json cap (pfx @ acc) val ip =
           Some (Ret \<lparr>returned = pre @ w @ CHR ''{'' # w0 @ commas (map renderMember ms)
                                   @ (if ms = [] then [] else '','')
                                   @ CHR 0x22 # acc @ CHR 0x22 # CHR '':'' # val @ CHR ''}'' # rest,
                       buffer = json, shared = False\<rparr>)"
proof -
  define body where "body = commas (map renderMember ms)"
  have rp: "rewritePath json cap (pfx @ acc) val ip
      = replaceAt json (int (length (pre @ w @ CHR ''{'' # w0 @ body))) acc val ip"
    unfolding body_def using assms(1-8) by (rule rewritePath_no_member)
  have wf: "whitespace w0" "list_all wfMember ms" using assms(4) by auto
  have "replaceAt json (int (length (pre @ w @ CHR ''{'' # w0 @ body))) acc val ip
      = Some (Ret \<lparr>returned = pre @ w @ CHR ''{'' # w0 @ body @ (if ms = [] then [] else '','')
                                   @ CHR 0x22 # acc @ CHR 0x22 # CHR '':'' # val @ CHR ''}'' # rest,
                       buffer = json, shared = False\<rparr>)"
  proof (cases "ms = []")
    case True
    have j: "json = (pre @ w) @ CHR ''{'' # w0 @ CHR ''}'' # rest"
      using True by (simp add: assms(2))
    have "replaceAt ((pre @ w) @ CHR ''{'' # w0 @ CHR ''}'' # rest)
        (int (length ((pre @ w) @ CHR ''{'' # w0))) acc val ip
      = Some (Ret \<lparr>returned = (pre @ w) @ CHR ''{'' # w0
                      @ (if CHR ''{'' \<noteq> CHR ''{'' then '','' else [])
                      @ CHR 0x22 # acc @ CHR 0x22 # CHR '':'' # val @ CHR ''}'' # rest,
                   buffer = (pre @ w) @ CHR ''{'' # w0 @ CHR ''}'' # rest, shared = False\<rparr>)"
      using wf(1) _ v by (rule replaceAt_append_object) (simp add: notSpace_iff)
    then show ?thesis using True by (simp add: j body_def)
  next
    case False
    obtain X c d where e: "commas (map renderMember ms) = X @ c # d" "whitespace d"
      "notSpace c" "c \<noteq> CHR ''{''"
      using members_end[OF wf(2) False] by metis
    have j: "json = (pre @ w @ CHR ''{'' # w0 @ X) @ c # d @ CHR ''}'' # rest"
      by (simp add: assms(2) e(1))
    have "replaceAt ((pre @ w @ CHR ''{'' # w0 @ X) @ c # d @ CHR ''}'' # rest)
        (int (length ((pre @ w @ CHR ''{'' # w0 @ X) @ c # d))) acc val ip
      = Some (Ret \<lparr>returned = (pre @ w @ CHR ''{'' # w0 @ X) @ c # d
                      @ (if c \<noteq> CHR ''{'' then '','' else [])
                      @ CHR 0x22 # acc @ CHR 0x22 # CHR '':'' # val @ CHR ''}'' # rest,
                   buffer = (pre @ w @ CHR ''{'' # w0 @ X) @ c # d @ CHR ''}'' # rest,
                   shared = False\<rparr>)"
      using e(2,3) v by (rule replaceAt_append_object)
    then show ?thesis using False e(4) by (simp add: j body_def e(1))
  qed
  then show ?thesis unfolding rp body_def .
qed

subsection \<open>The terminal accessor on a well-formed array\<close>

lemma locateAccessor_array_at:
  assumes "whitespace w" "wfValue (JArray w0 es)"
    and "length acc \<le> length (render (JArray w0 es) @ rest)"
    and "Atoi acc = Some n" "0 \<le> n"
  shows "nthElem (nat n) es = Some (p, v, q) \<Longrightarrow>
           locateAccessor (w @ render (JArray w0 es) @ rest) acc
             = Some (Ret (int (length (w @ CHR ''['' # w0 @ p))))"
    and "n = int (length es) \<Longrightarrow>
           locateAccessor (w @ render (JArray w0 es) @ rest) acc
             = Some (Ret (int (length (w @ CHR ''['' # w0 @ commas (map renderElem es)))))"
    and "n > int (length es) \<Longrightarrow>
           locateAccessor (w @ render (JArray w0 es) @ rest) acc = Some (Ret (- 1))"
proof -
  note l = locateAccessor_array[OF assms]
  show "locateAccessor (w @ render (JArray w0 es) @ rest) acc
             = Some (Ret (int (length (w @ CHR ''['' # w0 @ p))))"
    if f: "nthElem (nat n) es = Some (p, v, q)"
  proof -
    have "nat n < length es" using f nthElem_Some_iff[of "nat n" es] by auto
    then have "\<not> n > int (length es)" by simp
    then show ?thesis
      using l by (simp add: elemsFrom_nth[OF f] nthElem_render[OF f])
  qed
  show "locateAccessor (w @ render (JArray w0 es) @ rest) acc
             = Some (Ret (int (length (w @ CHR ''['' # w0 @ commas (map renderElem es)))))"
    if "n = int (length es)"
    using l that by simp
  show "locateAccessor (w @ render (JArray w0 es) @ rest) acc = Some (Ret (- 1))"
    if "n > int (length es)"
    using l that by simp
qed

lemma rewritePath_element:
  assumes "reaches json (pfx @ acc) (int (length pfx)) (int (length pre))"
    and "json = pre @ w @ render (JArray w0 es) @ rest"
    and "whitespace w" "wfValue (JArray w0 es)" "acc \<noteq> []" "CHR ''.'' \<notin> set acc"
    and "length acc \<le> length (render (JArray w0 es) @ rest)"
    and "Atoi acc = Some n" "0 \<le> n"
    and "nthElem (nat n) es = Some (p, v, q)"
  shows "rewritePath json cap (pfx @ acc) val ip
           = replaceAt ((pre @ w @ CHR ''['' # w0 @ p) @ render v @ (q @ CHR '']'' # rest))
               (int (length (pre @ w @ CHR ''['' # w0 @ p))) acc val ip"
    and "json = (pre @ w @ CHR ''['' # w0 @ p) @ render v @ (q @ CHR '']'' # rest)"
    and "wfValue v" and "followOk v (q @ CHR '']'' # rest)"
proof -
  have wf: "list_all wfElem es" using assms(4) by simp
  have body: "commas (map renderElem es) = p @ render v @ q"
    using assms(10) by (rule nthElem_render)
  show j: "json = (pre @ w @ CHR ''['' # w0 @ p) @ render v @ (q @ CHR '']'' # rest)"
    by (simp add: assms(2) body)
  show v: "wfValue v" using assms(10) wf by (rule nthElem_wf)
  show "followOk v (q @ CHR '']'' # rest)"
    using assms(10) wf by (rule nthElem_follow) (simp add: numChar_def)
  have loc: "locateAccessor (drop (nat (int (length pre))) json) acc
      = Some (Ret (int (length (w @ CHR ''['' # w0 @ p))))"
    unfolding assms(2) drop_pre
    using assms(3,4,7,8,9,10) by (rule locateAccessor_array_at(1))
  obtain c cs where hd: "render v = c # cs" using render_head[OF v] by metis
  have "rewritePath json cap (pfx @ acc) val ip
      = replaceAt json (int (length pre) + int (length (w @ CHR ''['' # w0 @ p))) acc val ip"
    using assms(1) _ assms(5,6) loc
    by (rule rewritePath_located) (simp_all add: assms(2) body hd)
  then show "rewritePath json cap (pfx @ acc) val ip
           = replaceAt ((pre @ w @ CHR ''['' # w0 @ p) @ render v @ (q @ CHR '']'' # rest))
               (int (length (pre @ w @ CHR ''['' # w0 @ p))) acc val ip"
    unfolding j[symmetric] by (simp add: ac_simps)
qed

lemma rewritePath_append_element:
  assumes "reaches json (pfx @ acc) (int (length pfx)) (int (length pre))"
    and "json = pre @ w @ render (JArray w0 es) @ rest"
    and "whitespace w" "wfValue (JArray w0 es)" "acc \<noteq> []" "CHR ''.'' \<notin> set acc"
    and "length acc \<le> length (render (JArray w0 es) @ rest)"
    and "Atoi acc = Some (int (length es))"
    and v: "val \<noteq> [] \<or> \<not> ip"
  shows "rewritePath json cap (pfx @ acc) val ip =
           Some (Ret \<lparr>returned = pre @ w @ CHR ''['' # w0 @ commas (map renderElem es)
                                   @ (if es = [] then [] else '','') @ val @ CHR '']'' # rest,
                       buffer = json, shared = False\<rparr>)"
proof -
  define body where "body = commas (map renderElem es)"
  have wf: "whitespace w0" "list_all wfElem es" using assms(4) by auto
  have loc: "locateAccessor (drop (nat (int (length pre))) json) acc
      = Some (Ret (int (length (w @ CHR ''['' # w0 @ body))))"
    unfolding assms(2) drop_pre body_def
    using assms(3,4,7,8) by (rule locateAccessor_array_at(2)) simp_all
  have "rewritePath json cap (pfx @ acc) val ip
      = replaceAt json (int (length pre) + int (length (w @ CHR ''['' # w0 @ body))) acc val ip"
    using assms(1) _ assms(5,6) loc
    by (rule rewritePath_located) (simp_all add: assms(2) body_def)
  then have rp: "rewritePath json cap (pfx @ acc) val ip
      = replaceAt json (int (length (pre @ w @ CHR ''['' # w0 @ body))) acc val ip"
    by (simp add: ac_simps)
  have "replaceAt json (int (length (pre @ w @ CHR ''['' # w0 @ body))) acc val ip
      = Some (Ret \<lparr>returned = pre @ w @ CHR ''['' # w0 @ body @ (if es = [] then [] else '','')
                                   @ val @ CHR '']'' # rest,
                       buffer = json, shared = False\<rparr>)"
  proof (cases "es = []")
    case True
    have j: "json = (pre @ w) @ CHR ''['' # w0 @ CHR '']'' # rest"
      using True by (simp add: assms(2))
    have "replaceAt ((pre @ w) @ CHR ''['' # w0 @ CHR '']'' # rest)
        (int (length ((pre @ w) @ CHR ''['' # w0))) acc val ip
      = Some (Ret \<lparr>returned = (pre @ w) @ CHR ''['' # w0
                      @ (if CHR ''['' \<noteq> CHR ''['' then '','' else []) @ val @ CHR '']'' # rest,
                   buffer = (pre @ w) @ CHR ''['' # w0 @ CHR '']'' # rest, shared = False\<rparr>)"
      using wf(1) _ v by (rule replaceAt_append_array) (simp add: notSpace_iff)
    then show ?thesis using True by (simp add: j body_def)
  next
    case False
    obtain X c d where e: "commas (map renderElem es) = X @ c # d" "whitespace d"
      "notSpace c" "c \<noteq> CHR ''[''"
      using elems_end[OF wf(2) False] by metis
    have j: "json = (pre @ w @ CHR ''['' # w0 @ X) @ c # d @ CHR '']'' # rest"
      by (simp add: assms(2) e(1))
    have "replaceAt ((pre @ w @ CHR ''['' # w0 @ X) @ c # d @ CHR '']'' # rest)
        (int (length ((pre @ w @ CHR ''['' # w0 @ X) @ c # d))) acc val ip
      = Some (Ret \<lparr>returned = (pre @ w @ CHR ''['' # w0 @ X) @ c # d
                      @ (if c \<noteq> CHR ''['' then '','' else []) @ val @ CHR '']'' # rest,
                   buffer = (pre @ w @ CHR ''['' # w0 @ X) @ c # d @ CHR '']'' # rest,
                   shared = False\<rparr>)"
      using e(2,3) v by (rule replaceAt_append_array)
    then show ?thesis using False e(4) by (simp add: j body_def e(1))
  qed
  then show ?thesis unfolding rp body_def .
qed

lemma rewritePath_beyond_array:
  assumes "reaches json (pfx @ acc) (int (length pfx)) (int (length pre))"
    and "json = pre @ w @ render (JArray w0 es) @ rest"
    and "whitespace w" "wfValue (JArray w0 es)" "acc \<noteq> []" "CHR ''.'' \<notin> set acc"
    and "length acc \<le> length (render (JArray w0 es) @ rest)"
    and "Atoi acc = Some n" "int (length es) < n"
  shows "rewritePath json cap (pfx @ acc) val ip = Some (Ret (unchanged json))"
proof -
  have loc: "locateAccessor (drop (nat (int (length pre))) json) acc = Some (Ret (- 1))"
    unfolding assms(2) drop_pre
    using assms(3,4,7,8) _ assms(9) by (rule locateAccessor_array_at(3)) (use assms(9) in simp)
  show ?thesis
    using assms(1) _ _ assms(6) loc
    by (rule rewritePath_notfound) (simp_all add: assms(2,5))
qed

subsection \<open>Documents after an update\<close>

text \<open>\<open>setMember acc v ms\<close> gives the first member with the key \<open>acc\<close> the value \<open>v\<close>.\<close>

fun setMember :: "bytes \<Rightarrow> jvalue \<Rightarrow> jmember list \<Rightarrow> jmember list" where
  "setMember acc v' [] = []"
| "setMember acc v' (Member a k b c v d # ms) =
     (if k = acc then Member a k b c v' d # ms else Member a k b c v d # setMember acc v' ms)"

lemma setMember_Nil_iff [simp]: "setMember acc v' ms = [] \<longleftrightarrow> ms = []"
  by (cases ms rule: keyed.cases) auto

lemma findMember_setMember:
  "findMember acc ms = Some (p, v, q) \<Longrightarrow> findMember acc (setMember acc v' ms) = Some (p, v', q)"
proof (induction acc ms arbitrary: p rule: findMember.induct)
  case (1 acc)
  then show ?case by simp
next
  case (2 acc a k b c v0 d ms)
  show ?case
  proof (cases "k = acc")
    case True
    with 2(2) show ?thesis by auto
  next
    case False
    with 2(2) obtain p' where f: "findMember acc ms = Some (p', v, q)"
      and p: "p = renderMember (Member a k b c v0 d) @ CHR '','' # p'"
      by auto
    show ?thesis using False 2(1)[OF False f] p by simp
  qed
qed

lemma wf_setMember:
  "list_all wfMember ms \<Longrightarrow> wfValue v' \<Longrightarrow> list_all wfMember (setMember acc v' ms)"
  by (induction acc v' ms rule: setMember.induct) auto

lemma commas_append_one: "commas (xs @ [x]) = commas xs @ (if xs = [] then [] else '','') @ x"
  by (induction xs rule: commas.induct) auto

lemma nthElem_snoc:
  "nthElem (length es) (es @ [Elem a v b])
     = Some (commas (map renderElem es) @ (if es = [] then [] else '','') @ a, v, b)"
proof (induction es)
  case Nil
  show ?case by simp
next
  case (Cons e es)
  then show ?case by (cases es) (auto simp: commas_sepTail sepTail_def)
qed

lemma Atoi_shape: "Atoi s = Some n \<Longrightarrow> s \<noteq> [] \<and> CHR ''.'' \<notin> set s"
proof -
  assume a: "Atoi s = Some n"
  define ds where "ds = (if s \<noteq> [] \<and> (hd s = CHR ''-'' \<or> hd s = CHR ''+'') then tl s else s)"
  from a have d: "ds \<noteq> []" "list_all isDigit ds"
    by (auto simp: Atoi_def Let_def ds_def split: if_splits)
  have nd: "CHR ''.'' \<notin> set ds" using d(2) by (auto simp: list_all_iff isDigit_def)
  have "s \<noteq> []" using d(1) by (auto simp: ds_def split: if_splits)
  moreover have "CHR ''.'' \<notin> set s"
  proof (cases "s \<noteq> [] \<and> (hd s = CHR ''-'' \<or> hd s = CHR ''+'')")
    case True
    then obtain c cs where s: "s = c # cs" "c = CHR ''-'' \<or> c = CHR ''+''" by (cases s) auto
    then have "ds = cs" by (simp add: ds_def)
    with nd s show ?thesis by auto
  next
    case False
    then have "ds = s" by (auto simp: ds_def)
    with nd show ?thesis by simp
  qed
  ultimately show ?thesis by simp
qed

text \<open>
  The first accessor of a path is looked up from the start of the buffer, where the byte
  the loop inspects is the first byte of the value found; for a well-formed value that
  byte is none of \<^verbatim>\<open>]\<close>, \<^verbatim>\<open>}\<close> and \<^verbatim>\<open>l\<close>.
\<close>

lemma reaches_member:
  assumes "json = w @ render (JObject w0 ms) @ rest" "whitespace w" "wfValue (JObject w0 ms)"
    and "findMember key ms = Some (p, v, q)" "CHR ''.'' \<notin> set key"
  shows "reaches json ((key @ ''.'') @ acc) (int (length (key @ ''.'')))
           (int (length (w @ CHR ''{'' # w0 @ p)))"
proof -
  have wf: "list_all wfMember ms" using assms(3) by simp
  have body: "commas (map renderMember ms) = p @ render v @ q"
    using assms(4) by (rule findMember_render)
  have v: "wfValue v" using assms(4) wf by (rule findMember_wf)
  obtain c cs where hd: "render v = c # cs" "c \<noteq> CHR ''l''" "c \<noteq> CHR '']''" "c \<noteq> CHR ''}''"
    using render_first[OF v] by metis
  have guard: "length key \<le> length (render (JObject w0 ms) @ rest)"
    using findMember_key_length[OF assms(4)] by (simp add: body)
  have "locateAccessor (w @ render (JObject w0 ms) @ rest) key
      = Some (Ret (int (length (w @ CHR ''{'' # w0 @ commas (map renderMember ms)))
                   - int (length (afterKey key ms))))"
    using assms(2,3) guard by (rule locateAccessor_object)
  then have loc: "locateAccessor (drop (nat 0) json) key
      = Some (Ret (int (length (w @ CHR ''{'' # w0 @ p))))"
    unfolding assms(1) by (simp add: body afterKey_found[OF assms(4)])
  have j: "json = (w @ CHR ''{'' # w0 @ p) @ c # cs @ q @ CHR ''}'' # rest"
    by (simp add: assms(1) body hd(1))
  define k where "k = int (length (w @ CHR ''{'' # w0 @ p))"
  have nth: "json ! nat k = c"
    unfolding k_def nat_int by (subst j) (rule nth_append_length)
  have k: "0 \<le> k" "k < int (length json)" by (simp_all add: k_def j)
  have d: "drop (nat 0) ((key @ ''.'') @ acc) = key @ CHR ''.'' # acc" by simp
  have "reaches json ((key @ ''.'') @ acc) (0 + int (length key) + 1) (0 + k)"
    using reaches.start _ _ _ d assms(5) loc[folded k_def] k
    by (rule reaches.step) (simp_all add: nth hd(2-4))
  then have "reaches json ((key @ ''.'') @ acc) (int (length (key @ ''.''))) k"
    by (simp add: ac_simps)
  then show ?thesis by (simp only: k_def)
qed

subsection \<open>The offsets the locator returns lie in the buffer\<close>

lemma objectLoop_bound:
  "objectLoop L acc json = Some (Ret k) \<Longrightarrow> L - int (length json) \<le> k \<and> k \<le> L"
proof (induction "length json" arbitrary: json k rule: less_induct)
  case less
  from less.prems obtain c where c: "byteAt json 0 = Ret c"
    by (subst (asm) objectLoop.simps) (auto simp: bindE_eq_Some_Ret)
  show ?case
  proof (cases "c = CHR ''}''")
    case True
    with less.prems c show ?thesis by (subst (asm) objectLoop.simps) simp
  next
    case False
    from less.prems[unfolded objectLoop.simps[of L acc json]] c False
    obtain key json1 json3 where
      ps: "parseString json = Ret (key, json1)"
      and cs: "consumeSeparator (consumeWhitespace json1) = Ret json3"
      and r: "key = acc \<and> k = L - int (length json3) \<or>
        (\<exists>json4 c'. consumeValue json3 = Some (Ret json4) \<and>
            byteAt (consumeWhitespace json4) 0 = Ret c' \<and>
            (if c' = CHR '',''
             then \<exists>json6. consumeSeparator (consumeWhitespace json4) = Ret json6
                    \<and> objectLoop L acc json6 = Some (Ret k)
             else objectLoop L acc (consumeWhitespace json4) = Some (Ret k)))"
      by (auto simp: bindE_eq_Some_Ret Let_def split: if_splits)
    have l1: "length json1 < length json" using parseString_suffix[OF ps] by simp
    have l2: "length (consumeWhitespace json1) \<le> length json1"
      using consumeWhitespace_suffix[of json1] by (rule suffix_length_le)
    have l3: "length json3 < length (consumeWhitespace json1)"
      using consumeSeparator_suffix[OF cs] by simp
    from r show ?thesis
    proof (elim disjE exE conjE)
      assume "key = acc" "k = L - int (length json3)"
      then show ?thesis using l1 l2 l3 by simp
    next
      fix json4 c'
      assume cv: "consumeValue json3 = Some (Ret json4)"
        and i: "if c' = CHR '',''
             then \<exists>json6. consumeSeparator (consumeWhitespace json4) = Ret json6
                    \<and> objectLoop L acc json6 = Some (Ret k)
             else objectLoop L acc (consumeWhitespace json4) = Some (Ret k)"
      have l4: "length json4 \<le> length json3"
        using consumeValue_suffix[OF cv] by (rule suffix_length_le)
      have l5: "length (consumeWhitespace json4) \<le> length json4"
        using consumeWhitespace_suffix[of json4] by (rule suffix_length_le)
      show ?thesis
      proof (cases "c' = CHR '',''")
        case True
        with i obtain json6 where s6: "consumeSeparator (consumeWhitespace json4) = Ret json6"
          and o: "objectLoop L acc json6 = Some (Ret k)" by auto
        have l6: "length json6 < length (consumeWhitespace json4)"
          using consumeSeparator_suffix[OF s6] by simp
        have "length json6 < length json" using l1 l2 l3 l4 l5 l6 by simp
        from less.hyps[OF this o] show ?thesis using l1 l2 l3 l4 l5 l6 by simp
      next
        case False
        with i have o: "objectLoop L acc (consumeWhitespace json4) = Some (Ret k)" by simp
        have "length (consumeWhitespace json4) < length json" using l1 l2 l3 l4 l5 by simp
        from less.hyps[OF this o] show ?thesis using l1 l2 l3 l4 l5 by simp
      qed
    qed
  qed
qed

lemma arrayLoop_bound:
  "arrayLoop n a json = Some (Ret (a', json')) \<Longrightarrow> length json' \<le> length json"
proof (induction "nat (n - a)" arbitrary: a json rule: less_induct)
  case less
  show ?case
  proof (cases "n > a")
    case False
    with less.prems show ?thesis by (subst (asm) arrayLoop.simps) simp
  next
    case True
    from less.prems True obtain c where c: "byteAt json 0 = Ret c"
      by (subst (asm) arrayLoop.simps) (auto simp: bindE_eq_Some_Ret)
    show ?thesis
    proof (cases "c = CHR '']''")
      case True
      with less.prems c \<open>n > a\<close> show ?thesis by (subst (asm) arrayLoop.simps) simp
    next
      case False
      from less.prems[unfolded arrayLoop.simps[of n a json]] c False \<open>n > a\<close>
      obtain json1 c' where
        cv: "consumeValue json = Some (Ret json1)"
        and "byteAt (consumeWhitespace json1) 0 = Ret c'"
        and i: "if c' = CHR '',''
             then \<exists>json3. consumeSeparator (consumeWhitespace json1) = Ret json3
                    \<and> arrayLoop n (a + 1) json3 = Some (Ret (a', json'))
             else arrayLoop n (a + 1) (consumeWhitespace json1) = Some (Ret (a', json'))"
        by (auto simp: bindE_eq_Some_Ret Let_def split: if_splits)
      have l1: "length json1 \<le> length json"
        using consumeValue_suffix[OF cv] by (rule suffix_length_le)
      have l2: "length (consumeWhitespace json1) \<le> length json1"
        using consumeWhitespace_suffix[of json1] by (rule suffix_length_le)
      have m: "nat (n - (a + 1)) < nat (n - a)" using \<open>n > a\<close> by simp
      show ?thesis
      proof (cases "c' = CHR '',''")
        case True
        with i obtain json3 where s: "consumeSeparator (consumeWhitespace json1) = Ret json3"
          and o: "arrayLoop n (a + 1) json3 = Some (Ret (a', json'))" by auto
        have "length json3 < length (consumeWhitespace json1)"
          using consumeSeparator_suffix[OF s] by simp
        with less.hyps[OF m o] l1 l2 show ?thesis by simp
      next
        case False
        with i have o: "arrayLoop n (a + 1) (consumeWhitespace json1) = Some (Ret (a', json'))"
          by simp
        with less.hyps[OF m o] l1 l2 show ?thesis by simp
      qed
    qed
  qed
qed

lemma locateAccessor_bound:
  assumes "locateAccessor json acc = Some (Ret k)"
  shows "k = - 1 \<or> 0 \<le> k \<and> k \<le> int (length json)"
proof -
  define s where "s = consumeWhitespace json"
  have ls: "length s \<le> length json"
    unfolding s_def using consumeWhitespace_suffix[of json] by (rule suffix_length_le)
  show ?thesis
  proof (cases "length s = 0 \<or> length s < length acc")
    case True
    with assms show ?thesis by (simp add: locateAccessor_def Let_def s_def)
  next
    case False
    then obtain c cs where s: "s = c # cs" by (cases s) auto
    have b: "byteAt (consumeWhitespace json) 0 = Ret c" using s by (simp add: s_def)
    consider "c = CHR ''{''" | "c = CHR ''[''" | "c = CHR ''n''"
      | "c \<noteq> CHR ''{''" "c \<noteq> CHR ''[''" "c \<noteq> CHR ''n''" by blast
    then show ?thesis
    proof cases
      case 1
      with assms False b obtain json1 where
        cs: "consumeSeparator s = Ret json1"
        and o: "objectLoop (int (length json)) acc json1 = Some (Ret k)"
        by (auto simp: locateAccessor_def Let_def s_def bindE_eq_Some_Ret)
      have "length json1 < length s" using consumeSeparator_suffix[OF cs] by simp
      with objectLoop_bound[OF o] ls show ?thesis by simp
    next
      case 2
      show ?thesis
      proof (cases "k = - 1")
        case True
        then show ?thesis by simp
      next
        case k: False
        with assms False b 2 obtain n json1 a' json' where
          cs: "consumeSeparator s = Ret json1"
          and o: "arrayLoop n 0 json1 = Some (Ret (a', json'))"
          and kk: "k = int (length json) - int (length json')"
          by (auto simp: locateAccessor_def Let_def s_def bindE_eq_Some_Ret
                split: option.splits if_splits)
        have "length json1 < length s" using consumeSeparator_suffix[OF cs] by simp
        with arrayLoop_bound[OF o] ls kk show ?thesis by simp
      qed
    next
      case 3
      show ?thesis
      proof (cases "k = - 1")
        case True
        then show ?thesis by simp
      next
        case k: False
        with assms False b 3 obtain json' where
          sf: "sliceFrom s 3 = Ret json'"
          and kk: "k = int (length json) - int (length json')"
          by (auto simp: locateAccessor_def Let_def s_def bindE_eq_Some_Ret
                split: option.splits if_splits)
        have "length json' \<le> length s"
          using sliceFrom_suffix[OF sf] by (rule suffix_length_le)
        with ls kk show ?thesis by simp
      qed
    next
      case 4
      with assms False b show ?thesis by (simp add: locateAccessor_def Let_def s_def)
    qed
  qed
qed

lemma reaches_inside:
  "reaches json path j i \<Longrightarrow> 0 \<le> j \<and> j \<le> int (length path) \<and> 0 \<le> i \<and> i \<le> int (length json)"
proof (induction rule: reaches.induct)
  case start
  show ?case by simp
next
  case (step j i acc others k)
  have "length (drop (nat j) path) = length acc + 1 + length others"
    by (simp add: step(5))
  then have a: "j + int (length acc) + 1 \<le> int (length path)" using step(2) by simp
  have "k = - 1 \<or> 0 \<le> k \<and> k \<le> int (length (drop (nat i) json))"
    using step(7) by (rule locateAccessor_bound)
  then have "i + k \<le> int (length json)" using step(3,4,8) by simp
  then show ?case using a step(2,3,8) by simp
qed

subsection \<open>An accessor that is not found ends the loop\<close>

lemma pathLoop_notfound:
  assumes "0 \<le> j" "j \<le> int (length path)" "0 \<le> i" "i \<le> int (length json)"
    and "drop (nat j) path = acc @ others" "CHR ''.'' \<notin> set acc"
    and "others = [] \<or> hd others = CHR ''.''"
    and "locateAccessor (drop (nat i) json) acc = Some (Ret (- 1))"
  shows "pathLoop json path j i = Some (Ret Unmodified)"
proof (cases others)
  case Nil
  then have "drop (nat j) path = acc" using assms(5) by simp
  with assms(1,3,4,2) show ?thesis using assms(6,8) by (rule pathLoop_last_notfound)
next
  case (Cons d ds)
  then have "drop (nat j) path = acc @ CHR ''.'' # ds" using assms(5,7) by simp
  with assms(1,3,4) show ?thesis using assms(6,8) by (rule pathLoop_step_notfound)
qed

lemma accessor_split:
  "\<exists>acc others. t = acc @ others \<and> CHR ''.'' \<notin> set acc \<and> (others = [] \<or> hd others = CHR ''.'')"
proof (intro exI conjI)
  show "t = takeWhile (\<lambda>c. c \<noteq> CHR ''.'') t @ dropWhile (\<lambda>c. c \<noteq> CHR ''.'') t" by simp
  show "CHR ''.'' \<notin> set (takeWhile (\<lambda>c. c \<noteq> CHR ''.'') t)"
    by (auto dest: set_takeWhileD)
  show "dropWhile (\<lambda>c. c \<noteq> CHR ''.'') t = [] \<or> hd (dropWhile (\<lambda>c. c \<noteq> CHR ''.'') t) = CHR ''.''"
    using hd_dropWhile[of "\<lambda>c. c \<noteq> CHR ''.''" t] by auto
qed

text \<open>At a closing delimiter, and at the last byte of \<^verbatim>\<open>null\<close>, no accessor is found.\<close>

lemma locateAccessor_at_append_point:
  assumes "0 \<le> i" "i < int (length json)"
    and "json ! nat i = CHR '']'' \<or> json ! nat i = CHR ''}'' \<or> json ! nat i = CHR ''l''"
  shows "locateAccessor (drop (nat i) json) acc = Some (Ret (- 1))"
proof -
  have d: "drop (nat i) json = json ! nat i # drop (Suc (nat i)) json"
    using assms(1,2) by (simp add: Cons_nth_drop_Suc)
  have "consumeWhitespace (drop (nat i) json) = json ! nat i # drop (Suc (nat i)) json"
    unfolding d using assms(3) by (auto simp: notSpace_iff)
  then show ?thesis by (rule locateAccessor_other) (use assms(3) in auto)
qed

lemma pathLoop_at_append_point:
  assumes "0 \<le> j" "j \<le> int (length path)" "0 \<le> i" "i < int (length json)"
    and "json ! nat i = CHR '']'' \<or> json ! nat i = CHR ''}'' \<or> json ! nat i = CHR ''l''"
  shows "pathLoop json path j i = Some (Ret Unmodified)"
proof -
  obtain acc others where s: "drop (nat j) path = acc @ others" "CHR ''.'' \<notin> set acc"
    "others = [] \<or> hd others = CHR ''.''"
    using accessor_split[of "drop (nat j) path"] by blast
  have "locateAccessor (drop (nat i) json) acc = Some (Ret (- 1))"
    using assms(3,4,5) by (rule locateAccessor_at_append_point)
  with assms(1,2,3) _ s show ?thesis by (rule pathLoop_notfound) (use assms(4) in simp)
qed

lemma pathLoop_append_inside:
  assumes "0 \<le> j" "j \<le> int (length path)" "0 \<le> i"
    and "drop (nat j) path = acc @ CHR ''.'' # others" "CHR ''.'' \<notin> set acc"
    and "locateAccessor (drop (nat i) json) acc = Some (Ret k)" "0 \<le> k"
    and "i + k < int (length json)"
    and "json ! nat (i + k) = CHR '']'' \<or> json ! nat (i + k) = CHR ''}''
           \<or> json ! nat (i + k) = CHR ''l''"
  shows "pathLoop json path j i = Some (Ret Unmodified)"
proof -
  have il: "i \<le> int (length json)" and kl: "k < int (length json)" using assms(3,7,8) by simp_all
  have "length (drop (nat j) path) = length acc + 1 + length others" by (simp add: assms(4))
  then have j': "j + int (length acc) + 1 \<le> int (length path)" using assms(1) by simp
  have "pathLoop json path (j + int (length acc) + 1) (i + k) = Some (Ret Unmodified)"
    using _ j' _ assms(8,9) by (rule pathLoop_at_append_point) (use assms(1,3,7) in simp_all)
  then show ?thesis
    using pathLoop_step[OF assms(1,3) il assms(4,5,6,7) kl] by simp
qed

lemma rewritePath_unmodified:
  assumes "reaches json path j i" "path \<noteq> []" "pathLoop json path j i = Some (Ret Unmodified)"
  shows "rewritePath json cap path val ip
           = Some (Ret \<lparr>returned = json, buffer = json, shared = True\<rparr>)"
proof -
  have "pathLoop json path 0 0 = Some (Ret Unmodified)"
    using reaches_pathLoop[OF assms(1)] assms(3) by simp
  moreover have "(path = []) = False" using assms(2) by simp
  ultimately show ?thesis
    unfolding rewritePath_def by (simp only: if_False bindE.simps located.case)
qed

section \<open>The splice stays inside the buffer\<close>

text \<open>
  Behind the loop \<^verbatim>\<open>rewritePath\<close> reads and writes the buffer at offsets it computes
  from the cursor and from what \<^verbatim>\<open>consumeValue\<close> returns. If the cursor is inside the
  buffer and \<^verbatim>\<open>consumeValue\<close> returns, every one of these accesses is in range.
\<close>

lemma prevCharFrom_total:
  "0 \<le> i \<Longrightarrow> i < int (length json) \<Longrightarrow> n \<le> length json \<Longrightarrow> \<exists>c. prevCharFrom json i n = Ret c"
  by (induction n) (auto simp: byteAt_def)

lemma prevChar_total:
  "0 \<le> i \<Longrightarrow> i < int (length json) \<Longrightarrow> \<exists>c. prevChar json i = Ret c"
  unfolding prevChar_def by (rule prevCharFrom_total) simp_all

lemma store_total:
  "0 \<le> i \<Longrightarrow> i < int (length json) \<Longrightarrow> \<exists>r. store json i c = Ret r \<and> length r = length json"
  by (simp add: store_def)

lemma copyAt_total:
  "0 \<le> i \<Longrightarrow> i \<le> int (length json) \<Longrightarrow> \<exists>r. copyAt json i val = Ret r \<and> length r = length json"
  by (auto simp: copyAt_def sliceFrom_def Let_def)

lemma padLoop_total:
  assumes "0 \<le> i" "0 \<le> d" "i + d \<le> int (length json)"
  shows "\<exists>r. padLoop json i 0 d = Ret r"
  using padLoop_fill[of i 0 d json] assms by simp

lemma rewriteInPlace_total:
  assumes "0 \<le> i" "newLen = int (length val) + (if appendNull then 2 else 0)"
    and "newLen \<le> oldLen" "i + oldLen \<le> int (length json)"
  shows "\<exists>r. rewriteInPlace json i val appendNull oldLen newLen = Ret r"
proof -
  have "\<exists>r. (if appendNull then
          bindR (store json i (CHR ''['')) (\<lambda>json.
            bindR (copyAt json (i + 1) val) (\<lambda>json.
              store json (i + newLen - 1) (CHR '']'')))
        else copyAt json i val) = Ret r \<and> length r = length json"
  proof (cases appendNull)
    case False
    then show ?thesis using copyAt_total[of i json val] assms by simp
  next
    case True
    have n: "2 \<le> newLen" using True assms(2) by simp
    obtain r1 where r1: "store json i (CHR ''['') = Ret r1" "length r1 = length json"
      using store_total[of i json] assms n by force
    obtain r2 where r2: "copyAt r1 (i + 1) val = Ret r2" "length r2 = length json"
      using copyAt_total[of "i + 1" r1 val] assms n r1(2) by force
    obtain r3 where r3: "store r2 (i + newLen - 1) (CHR '']'') = Ret r3" "length r3 = length json"
      using store_total[of "i + newLen - 1" r2] assms n r2(2) by force
    show ?thesis using True r1 r2 r3 by simp
  qed
  then obtain r where r: "(if appendNull then
          bindR (store json i (CHR ''['')) (\<lambda>json.
            bindR (copyAt json (i + 1) val) (\<lambda>json.
              store json (i + newLen - 1) (CHR '']'')))
        else copyAt json i val) = Ret r" "length r = length json" by blast
  have "0 \<le> newLen" using assms(2) by simp
  then obtain r' where "padLoop r (i + newLen) 0 (oldLen - newLen) = Ret r'"
    using padLoop_total[of "i + newLen" "oldLen - newLen" r] assms r(2) by force
  then show ?thesis unfolding rewriteInPlace_def r(1) by simp
qed

lemma spliceNew_total:
  assumes "0 \<le> i" "i < int (length json)"
  shows "\<exists>r. spliceNew json i lastAcc val rest = Ret r"
proof -
  obtain p where "prevChar json i = Ret p" using prevChar_total[OF assms] by blast
  then show ?thesis using assms by (simp add: spliceNew_def sliceTo_def byteAt_def)
qed

lemma replaceAt_unfold:
  assumes "byteAt json i0 = Ret c0" "appendNull = (c0 = CHR ''l'' \<and> lastAcc = ''0'')"
    and "i = (if appendNull then i0 - 3 else i0)"
    and "sliceFrom json i = Ret tail" "consumeValue tail = Some (Ret rest)"
    and "byteAt json i = Ret c"
    and "oldLen = (if c \<noteq> CHR ''}'' \<and> c \<noteq> CHR '']''
                   then int (length tail) - int (length rest) else 0)"
    and "newLen = int (length val) + (if appendNull then 2 else 0)"
  shows "replaceAt json i0 lastAcc val inPlace =
     (if inPlace \<and> newLen \<le> oldLen
      then Some (bindR (rewriteInPlace json i val appendNull oldLen newLen) (\<lambda>json'.
             Ret \<lparr>returned = json', buffer = json', shared = True\<rparr>))
      else Some (bindR (spliceNew json i lastAcc val rest) (\<lambda>newJSON.
             Ret \<lparr>returned = newJSON, buffer = json, shared = False\<rparr>)))"
proof -
  have 1: "replaceAt json i0 lastAcc val inPlace =
      bindE (Some (if inPlace then
                     (if newLen \<le> oldLen
                      then bindR (rewriteInPlace json i val appendNull oldLen newLen)
                             (\<lambda>json. Ret (Some json))
                      else Ret None)
                   else Ret None))
        (\<lambda>written.
           case written of
             Some json' \<Rightarrow> Some (Ret \<lparr>returned = json', buffer = json', shared = True\<rparr>)
           | None \<Rightarrow> Some (bindR (spliceNew json i lastAcc val rest) (\<lambda>newJSON.
                        Ret \<lparr>returned = newJSON, buffer = json, shared = False\<rparr>)))"
    unfolding replaceAt_def assms(1) bindE.simps Let_def assms(2)[symmetric] assms(3)[symmetric]
      assms(4) assms(5) assms(6) bindR.simps assms(7)[symmetric] assms(8)[symmetric]
    by (rule refl)
  show ?thesis
    unfolding 1 by (cases "rewriteInPlace json i val appendNull oldLen newLen") simp_all
qed

lemma replaceAt_total:
  assumes "0 \<le> i0" "i0 < int (length json)"
    and "i = (if json ! nat i0 = CHR ''l'' \<and> lastAcc = ''0'' then i0 - 3 else i0)" "0 \<le> i"
    and "consumeValue (drop (nat i) json) = Some (Ret rest)"
  shows "\<exists>r. replaceAt json i0 lastAcc val inPlace = Some (Ret r)"
proof -
  define appendNull where "appendNull = (json ! nat i0 = CHR ''l'' \<and> lastAcc = ''0'')"
  have i: "i = (if appendNull then i0 - 3 else i0)" using assms(3) by (simp add: appendNull_def)
  have il: "i < int (length json)" using assms(2,3) by (simp split: if_splits)
  have b0: "byteAt json i0 = Ret (json ! nat i0)" using assms(1,2) by (simp add: byteAt_def)
  have sf: "sliceFrom json i = Ret (drop (nat i) json)"
    using assms(4) il by (simp add: sliceFrom_def)
  have bi: "byteAt json i = Ret (json ! nat i)" using assms(4) il by (simp add: byteAt_def)
  have len: "length rest \<le> length (drop (nat i) json)"
    using consumeValue_suffix[OF assms(5)] by (rule suffix_length_le)
  obtain s where s: "spliceNew json i lastAcc val rest = Ret s"
    using spliceNew_total[OF assms(4) il] by blast
  define oldLen where "oldLen = (if json ! nat i \<noteq> CHR ''}'' \<and> json ! nat i \<noteq> CHR '']''
      then int (length (drop (nat i) json)) - int (length rest) else 0)"
  define newLen where "newLen = int (length val) + (if appendNull then 2 else 0)"
  have ol: "i + oldLen \<le> int (length json)" using len assms(4) il by (simp add: oldLen_def)
  note u = replaceAt_unfold[OF b0 appendNull_def i sf assms(5) bi oldLen_def newLen_def]
  show ?thesis
  proof (cases "inPlace \<and> newLen \<le> oldLen")
    case True
    then obtain r where r: "rewriteInPlace json i val appendNull oldLen newLen = Ret r"
      using rewriteInPlace_total[OF assms(4) newLen_def _ ol] by blast
    show ?thesis unfolding u using True r by simp
  next
    case False
    show ?thesis unfolding u using False s by auto
  qed
qed

section \<open>The cursor on a well-formed document\<close>

text \<open>
  The places of a buffer the loop of \<^verbatim>\<open>rewritePath\<close> can stand at when the document is
  well-formed: the first byte of a well-formed value, or a place to append at, which is
  a closing delimiter or the last byte of a \<^verbatim>\<open>null\<close>.
\<close>

definition valueAt :: "bytes \<Rightarrow> int \<Rightarrow> bool" where
  "valueAt json i \<longleftrightarrow>
     (\<exists>A v B. json = A @ render v @ B \<and> int (length A) = i \<and> wfValue v \<and> followOk v B)"

definition appendAt :: "bytes \<Rightarrow> int \<Rightarrow> bool" where
  "appendAt json i \<longleftrightarrow>
     0 \<le> i \<and> i < int (length json) \<and>
     (json ! nat i = CHR '']'' \<or> json ! nat i = CHR ''}'' \<or>
      json ! nat i = CHR ''l'' \<and> 3 \<le> i \<and> take 4 (drop (nat (i - 3)) json) = ''null'')"

lemma valueAt_inside: "valueAt json i \<Longrightarrow> 0 \<le> i \<and> i < int (length json)"
proof -
  assume "valueAt json i"
  then obtain A v B where j: "json = A @ render v @ B" "int (length A) = i" "wfValue v"
    unfolding valueAt_def by blast
  obtain c cs where "render v = c # cs" using render_head[OF j(3)] by metis
  then show ?thesis using j(1,2) by auto
qed

lemma appendAt_inside: "appendAt json i \<Longrightarrow> 0 \<le> i \<and> i < int (length json)"
  by (simp add: appendAt_def)

lemma locateAccessor_negative:
  "consumeWhitespace json = CHR ''['' # cs \<Longrightarrow> Atoi acc = Some n \<Longrightarrow> n < 0 \<Longrightarrow>
   locateAccessor json acc = Some (Ret (- 1))"
  by (simp add: locateAccessor_def Let_def)

lemma locateAccessor_null_nonzero:
  "consumeWhitespace json = CHR ''n'' # cs \<Longrightarrow> Atoi acc = Some n \<Longrightarrow> n \<noteq> 0 \<Longrightarrow>
   locateAccessor json acc = Some (Ret (- 1))"
  by (simp add: locateAccessor_def Let_def)

text \<open>
  Applied to a well-formed value, the locator returns: not found, the first byte of a
  member's or an element's value, or a place to append at.
\<close>

lemma locateAccessor_wf:
  assumes "whitespace w" "wfValue v"
  shows "\<exists>k. locateAccessor (w @ render v @ B) acc = Some (Ret k) \<and>
           (k = - 1 \<or> 0 \<le> k \<and>
              (valueAt (A @ w @ render v @ B) (int (length A) + k) \<or>
               appendAt (A @ w @ render v @ B) (int (length A) + k)))"
proof -
  let ?json = "A @ w @ render v @ B"
  obtain c cs where hd: "render v = c # cs" "notSpace c"
    using render_head[OF assms(2)] by metis
  have cw: "consumeWhitespace (w @ render v @ B) = render v @ B"
    using assms(1) by (intro consumeWhitespace_skip) (simp_all add: hd)
  show ?thesis
  proof (cases "length (render v @ B) < length acc")
    case True
    then have "locateAccessor (w @ render v @ B) acc = Some (Ret (- 1))"
      by (intro locateAccessor_short) (simp add: cw)
    then show ?thesis by simp
  next
    case False
    then have guard: "length acc \<le> length (render v @ B)" by simp
    show ?thesis
    proof (cases v)
      case (JObject w0 ms)
      have wf: "wfValue (JObject w0 ms)" "list_all wfMember ms" "whitespace w0"
        using assms(2) JObject by simp_all
      have loc: "locateAccessor (w @ render v @ B) acc
         = Some (Ret (int (length (w @ CHR ''{'' # w0 @ commas (map renderMember ms)))
                  - int (length (afterKey acc ms))))"
        unfolding JObject using assms(1) wf(1) guard[unfolded JObject]
        by (rule locateAccessor_object)
      show ?thesis
      proof (cases "findMember acc ms")
        case None
        have k: "locateAccessor (w @ render v @ B) acc
           = Some (Ret (int (length (w @ CHR ''{'' # w0 @ commas (map renderMember ms)))))"
          using loc by (simp add: afterKey_absent[OF None])
        have j: "?json = (A @ w @ CHR ''{'' # w0 @ commas (map renderMember ms)) @ CHR ''}'' # B"
          by (simp add: JObject)
        have n: "?json ! nat (int (length A)
              + int (length (w @ CHR ''{'' # w0 @ commas (map renderMember ms)))) = CHR ''}''"
          unfolding j
          using nth_append_length[of "A @ w @ CHR ''{'' # w0 @ commas (map renderMember ms)"
              "CHR ''}''" B]
          by (simp add: nat_add_distrib)
        have "appendAt ?json (int (length A)
              + int (length (w @ CHR ''{'' # w0 @ commas (map renderMember ms))))"
          unfolding appendAt_def using n by (simp add: JObject)
        then show ?thesis using k by simp
      next
        case (Some t)
        then obtain p v' q where f: "findMember acc ms = Some (p, v', q)" by (cases t) auto
        have body: "commas (map renderMember ms) = p @ render v' @ q"
          using f by (rule findMember_render)
        have k: "locateAccessor (w @ render v @ B) acc
           = Some (Ret (int (length (w @ CHR ''{'' # w0 @ p))))"
          using loc by (simp add: afterKey_found[OF f] body)
        have "valueAt ?json (int (length A) + int (length (w @ CHR ''{'' # w0 @ p)))"
          unfolding valueAt_def
        proof (intro exI conjI)
          show "?json = (A @ w @ CHR ''{'' # w0 @ p) @ render v' @ (q @ CHR ''}'' # B)"
            by (simp add: JObject body)
          show "int (length (A @ w @ CHR ''{'' # w0 @ p))
              = int (length A) + int (length (w @ CHR ''{'' # w0 @ p))" by simp
          show "wfValue v'" using f wf(2) by (rule findMember_wf)
          show "followOk v' (q @ CHR ''}'' # B)"
            using f wf(2) by (rule findMember_follow) (simp add: numChar_def)
        qed
        then show ?thesis using k by simp
      qed
    next
      case (JArray w0 es)
      have wf: "wfValue (JArray w0 es)" "list_all wfElem es" "whitespace w0"
        using assms(2) JArray by simp_all
      have cw': "consumeWhitespace (w @ render v @ B)
          = CHR ''['' # w0 @ commas (map renderElem es) @ CHR '']'' # B"
        unfolding cw by (simp add: JArray)
      show ?thesis
      proof (cases "Atoi acc")
        case None
        have "locateAccessor (w @ render v @ B) acc = Some (Ret (- 1))"
          using cw' _ None by (rule locateAccessor_bad_index) simp
        then show ?thesis by simp
      next
        case (Some n)
        consider "n < 0" | "0 \<le> n" "nat n < length es" | "n = int (length es)"
          | "int (length es) < n" by linarith
        then show ?thesis
        proof cases
          case 1
          have "locateAccessor (w @ render v @ B) acc = Some (Ret (- 1))"
            using cw' Some 1 by (rule locateAccessor_negative)
          then show ?thesis by simp
        next
          case 2
          then obtain t where "nthElem (nat n) es = Some t"
            using nthElem_Some_iff[of "nat n" es] by blast
          then obtain p v' q where f: "nthElem (nat n) es = Some (p, v', q)" by (cases t) auto
          have body: "commas (map renderElem es) = p @ render v' @ q"
            using f by (rule nthElem_render)
          have k: "locateAccessor (w @ render v @ B) acc
             = Some (Ret (int (length (w @ CHR ''['' # w0 @ p))))"
            unfolding JArray
            using assms(1) wf(1) guard[unfolded JArray] Some 2(1) f
            by (rule locateAccessor_array_at(1))
          have "valueAt ?json (int (length A) + int (length (w @ CHR ''['' # w0 @ p)))"
            unfolding valueAt_def
          proof (intro exI conjI)
            show "?json = (A @ w @ CHR ''['' # w0 @ p) @ render v' @ (q @ CHR '']'' # B)"
              by (simp add: JArray body)
            show "int (length (A @ w @ CHR ''['' # w0 @ p))
                = int (length A) + int (length (w @ CHR ''['' # w0 @ p))" by simp
            show "wfValue v'" using f wf(2) by (rule nthElem_wf)
            show "followOk v' (q @ CHR '']'' # B)"
              using f wf(2) by (rule nthElem_follow) (simp add: numChar_def)
          qed
          then show ?thesis using k by simp
        next
          case 3
          have n0: "0 \<le> n" using 3 by simp
          have k: "locateAccessor (w @ render v @ B) acc
             = Some (Ret (int (length (w @ CHR ''['' # w0 @ commas (map renderElem es)))))"
            unfolding JArray
            using assms(1) wf(1) guard[unfolded JArray] Some n0 3
            by (rule locateAccessor_array_at(2))
          have j: "?json = (A @ w @ CHR ''['' # w0 @ commas (map renderElem es)) @ CHR '']'' # B"
            by (simp add: JArray)
          have n: "?json ! nat (int (length A)
                + int (length (w @ CHR ''['' # w0 @ commas (map renderElem es)))) = CHR '']''"
            unfolding j
            using nth_append_length[of "A @ w @ CHR ''['' # w0 @ commas (map renderElem es)"
                "CHR '']''" B]
            by (simp add: nat_add_distrib)
          have "appendAt ?json (int (length A)
                + int (length (w @ CHR ''['' # w0 @ commas (map renderElem es))))"
            unfolding appendAt_def using n by (simp add: JArray)
          then show ?thesis using k by simp
        next
          case 4
          have n0: "0 \<le> n" using 4 by simp
          have "locateAccessor (w @ render v @ B) acc = Some (Ret (- 1))"
            unfolding JArray
            using assms(1) wf(1) guard[unfolded JArray] Some n0 4
            by (rule locateAccessor_array_at(3))
          then show ?thesis by simp
        qed
      qed
    next
      case JNull
      have cw': "consumeWhitespace (w @ render v @ B) = CHR ''n'' # ''ull'' @ B"
        unfolding cw by (simp add: JNull)
      show ?thesis
      proof (cases "Atoi acc")
        case None
        have "locateAccessor (w @ render v @ B) acc = Some (Ret (- 1))"
          using cw' _ None by (rule locateAccessor_bad_index) simp
        then show ?thesis by simp
      next
        case (Some n)
        show ?thesis
        proof (cases "n = 0")
          case False
          have "locateAccessor (w @ render v @ B) acc = Some (Ret (- 1))"
            using cw' Some False by (rule locateAccessor_null_nonzero)
          then show ?thesis by simp
        next
          case True
          have k: "locateAccessor (w @ render v @ B) acc = Some (Ret (int (length w) + 3))"
            unfolding JNull render.simps
            using assms(1) Some[unfolded True] by (rule locateAccessor_null)
              (use guard JNull in simp)
          have j: "?json = (A @ w @ ''nul'') @ CHR ''l'' # B" by (simp add: JNull)
          have n: "?json ! nat (int (length A) + (int (length w) + 3)) = CHR ''l''"
            unfolding j using nth_append_length[of "A @ w @ ''nul''" "CHR ''l''" B]
            by (simp add: nat_add_distrib)
          have d: "take 4 (drop (nat (int (length A) + (int (length w) + 3) - 3)) ?json) = ''null''"
            by (simp add: JNull nat_add_distrib)
          have "appendAt ?json (int (length A) + (int (length w) + 3))"
            unfolding appendAt_def using n d by (simp add: JNull)
          then show ?thesis using k by simp
        qed
      qed
    next
      case JTrue
      have "consumeWhitespace (w @ render v @ B) = CHR ''t'' # ''rue'' @ B"
        unfolding cw by (simp add: JTrue)
      then have "locateAccessor (w @ render v @ B) acc = Some (Ret (- 1))"
        by (rule locateAccessor_other) simp_all
      then show ?thesis by simp
    next
      case JFalse
      have "consumeWhitespace (w @ render v @ B) = CHR ''f'' # ''alse'' @ B"
        unfolding cw by (simp add: JFalse)
      then have "locateAccessor (w @ render v @ B) acc = Some (Ret (- 1))"
        by (rule locateAccessor_other) simp_all
      then show ?thesis by simp
    next
      case (JString s)
      have "consumeWhitespace (w @ render v @ B) = CHR 0x22 # s @ CHR 0x22 # B"
        unfolding cw by (simp add: JString)
      then have "locateAccessor (w @ render v @ B) acc = Some (Ret (- 1))"
        by (rule locateAccessor_other) simp_all
      then show ?thesis by simp
    next
      case (JNumber s)
      then obtain d ds where s: "s = d # ds" "numChar d" using assms(2) by (cases s) auto
      have "consumeWhitespace (w @ render v @ B) = d # ds @ B"
        unfolding cw by (simp add: JNumber s(1))
      then have "locateAccessor (w @ render v @ B) acc = Some (Ret (- 1))"
        by (rule locateAccessor_other) (use s(2) in \<open>auto simp: numChar_def\<close>)
      then show ?thesis by simp
    qed
  qed
qed

subsection \<open>The splice at a cursor\<close>

lemma replaceAt_at_value:
  assumes "valueAt json i"
  shows "\<exists>r. replaceAt json i lastAcc val inPlace = Some (Ret r)"
proof -
  from assms obtain A v B where j: "json = A @ render v @ B" "int (length A) = i"
    "wfValue v" "followOk v B"
    unfolding valueAt_def by blast
  note b = valueAt_inside[OF assms]
  obtain c cs where hd: "render v = c # cs" "c \<noteq> CHR ''l''"
    using render_first[OF j(3)] by metis
  have "json ! nat i = c"
    using nth_append_length[of A c "cs @ B"] j(1,2) hd(1) by auto
  then have i: "i = (if json ! nat i = CHR ''l'' \<and> lastAcc = ''0'' then i - 3 else i)"
    using hd(2) by simp
  have "drop (nat i) json = render v @ B" using j(1,2) by auto
  then have cv: "consumeValue (drop (nat i) json) = Some (Ret B)"
    using consumeValue_render[OF j(3,4)] by simp
  show ?thesis using b[THEN conjunct1] b[THEN conjunct2] i b[THEN conjunct1] cv
    by (rule replaceAt_total)
qed

lemma replaceAt_at_append:
  assumes "appendAt json i"
  shows "\<exists>r. replaceAt json i lastAcc val inPlace = Some (Ret r)"
proof -
  have b: "0 \<le> i" "i < int (length json)" using assms by (simp_all add: appendAt_def)
  have d: "drop (nat i) json = json ! nat i # drop (Suc (nat i)) json"
    using b by (simp add: Cons_nth_drop_Suc)
  show ?thesis
  proof (cases "json ! nat i = CHR ''l'' \<and> lastAcc = ''0''")
    case False
    then have i: "i = (if json ! nat i = CHR ''l'' \<and> lastAcc = ''0'' then i - 3 else i)"
      by simp
    from assms have "json ! nat i = CHR '']'' \<or> json ! nat i = CHR ''}'' \<or> json ! nat i = CHR ''l''"
      by (auto simp: appendAt_def)
    then have "consumeValue (drop (nat i) json) = Some (Ret (drop (nat i) json))"
      unfolding d by (auto simp: consumeValue_delim)
    with b i b(1) show ?thesis by (rule replaceAt_total)
  next
    case True
    with assms have n: "3 \<le> i" "take 4 (drop (nat (i - 3)) json) = ''null''"
      by (auto simp: appendAt_def)
    have i: "i - 3 = (if json ! nat i = CHR ''l'' \<and> lastAcc = ''0'' then i - 3 else i)"
      using True by simp
    have "drop (nat (i - 3)) json = ''null'' @ drop 4 (drop (nat (i - 3)) json)"
      using append_take_drop_id[of 4 "drop (nat (i - 3)) json"] n(2) by simp
    moreover have "consumeValue (''null'' @ X) = Some (Ret X)" for X
      by (simp add: consumeValue_def sliceFrom_def)
    ultimately have cv: "consumeValue (drop (nat (i - 3)) json)
        = Some (Ret (drop 4 (drop (nat (i - 3)) json)))" by simp
    have i3: "0 \<le> i - 3" using n(1) by simp
    show ?thesis using b i i3 cv by (rule replaceAt_total)
  qed
qed

subsection \<open>The loop on a well-formed document\<close>

text \<open>
  A path that ends in a dot, or in an empty accessor: the loop takes the accessor for one
  that is not the last, and its next iteration slices the path behind its end.
\<close>

lemma pathLoop_last_empty:
  assumes "0 \<le> i" "i \<le> int (length json)" "j = int (length path)"
    and loc: "locateAccessor (drop (nat i) json) [] = Some (Ret k)"
    and k: "0 \<le> k" "k < int (length json)"
  shows "pathLoop json path j i =
     (if json ! nat k = CHR '']'' \<or> json ! nat k = CHR ''}'' \<or> json ! nat k = CHR ''l''
      then Some (Ret Unmodified) else Some (Panic PathOutOfRange))"
proof -
  have pf: "pathFrom path j = Ret []" using assms(3) by (simp add: pathFrom_def)
  have ib: "IndexByte [] (CHR ''.'') = - 1" by (simp add: IndexByte_def)
  have pb: "pathBetween path j j = Ret []" using assms(3) by (simp add: pathBetween_def)
  have sf: "sliceFrom json i = Ret (drop (nat i) json)"
    using assms(1,2) by (simp add: sliceFrom_def)
  have ba: "byteAt json k = Ret (json ! nat k)" using k by (simp add: byteAt_def)
  have nx: "pathLoop json path (j + 1) (i + k) = Some (Panic PathOutOfRange)"
    using assms(3) by (subst pathLoop.simps) (simp add: pathFrom_def)
  show ?thesis
    using k(1) by (subst pathLoop.simps) (simp add: pf ib pb sf loc ba nx Let_def)
qed

lemma pathLoop_safe:
  assumes "0 \<le> j" "j \<le> int (length path)"
    and "(\<exists>A w v B. json = A @ w @ render v @ B \<and> int (length A) = i \<and> whitespace w \<and> wfValue v)
         \<or> appendAt json i"
  shows "\<exists>r. pathLoop json path j i = Some r \<and>
           (r = Panic PathOutOfRange \<or> r = Ret Unmodified \<or>
            (\<exists>i' acc. r = Ret (Located i' acc) \<and> (valueAt json i' \<or> appendAt json i')))"
  using assms
proof (induction "nat (int (length path) - j)" arbitrary: j i rule: less_induct)
  case less
  from less.prems(3) show ?case
  proof (elim disjE exE conjE)
    assume a: "appendAt json i"
    have "pathLoop json path j i = Some (Ret Unmodified)"
      using less.prems(1,2) a unfolding appendAt_def
      by (intro pathLoop_at_append_point) auto
    then show ?thesis by simp
  next
    fix A w v B
    assume js: "json = A @ w @ render v @ B" "int (length A) = i" "whitespace w" "wfValue v"
    have i: "0 \<le> i" "i \<le> int (length json)" using js(1,2) by auto
    have dr: "drop (nat i) json = w @ render v @ B" using js(1,2) by auto
    obtain acc others where s: "drop (nat j) path = acc @ others" "CHR ''.'' \<notin> set acc"
      "others = [] \<or> hd others = CHR ''.''"
      using accessor_split[of "drop (nat j) path"] by blast
    obtain k where k: "locateAccessor (drop (nat i) json) acc = Some (Ret k)"
      and kk: "k = - 1 \<or> 0 \<le> k \<and> (valueAt json (i + k) \<or> appendAt json (i + k))"
      using locateAccessor_wf[OF js(3,4), of B acc A] unfolding dr js(1)[symmetric] js(2)
      by blast
    show ?thesis
    proof (cases "k = - 1")
      case True
      have "pathLoop json path j i = Some (Ret Unmodified)"
        using less.prems(1,2) i s k[unfolded True] by (rule pathLoop_notfound)
      then show ?thesis by simp
    next
      case False
      with kk have k0: "0 \<le> k" and c: "valueAt json (i + k) \<or> appendAt json (i + k)" by simp_all
      have ik: "0 \<le> i + k \<and> i + k < int (length json)"
        using c valueAt_inside appendAt_inside by blast
      then have kl: "k < int (length json)" using i(1) by simp
      show ?thesis
      proof (cases others)
        case Nil
        then have p: "drop (nat j) path = acc" using s(1) by simp
        show ?thesis
        proof (cases "acc = []")
          case False
          have "pathLoop json path j i = Some (Ret (Located (i + k) acc))"
            using less.prems(1) i less.prems(2) p s(2) False k k0 kl by (rule pathLoop_last)
          then show ?thesis using c by simp
        next
          case True
          have "length (drop (nat j) path) = 0" using p True by simp
          then have jl: "j = int (length path)" using less.prems(1,2) by simp
          have "pathLoop json path j i =
             (if json ! nat k = CHR '']'' \<or> json ! nat k = CHR ''}'' \<or> json ! nat k = CHR ''l''
              then Some (Ret Unmodified) else Some (Panic PathOutOfRange))"
            using i jl k[unfolded True] k0 kl by (rule pathLoop_last_empty)
          then show ?thesis by simp
        qed
      next
        case (Cons d ds)
        then have p: "drop (nat j) path = acc @ CHR ''.'' # ds" using s(1,3) by simp
        have "length (drop (nat j) path) = length acc + 1 + length ds" by (simp add: p)
        then have j': "j + int (length acc) + 1 \<le> int (length path)"
          using less.prems(1) by simp
        have st: "pathLoop json path j i =
           (if json ! nat k = CHR '']'' \<or> json ! nat k = CHR ''}'' \<or> json ! nat k = CHR ''l''
            then Some (Ret Unmodified)
            else pathLoop json path (j + int (length acc) + 1) (i + k))"
          using less.prems(1) i p s(2) k k0 kl by (rule pathLoop_step)
        show ?thesis
        proof (cases "json ! nat k = CHR '']'' \<or> json ! nat k = CHR ''}'' \<or> json ! nat k = CHR ''l''")
          case True
          then show ?thesis using st by simp
        next
          case False
          have m: "nat (int (length path) - (j + int (length acc) + 1)) < nat (int (length path) - j)"
            using j' less.prems(1) by simp
          have j0: "0 \<le> j + int (length acc) + 1" using less.prems(1) by simp
          have c': "(\<exists>A w v B. json = A @ w @ render v @ B \<and> int (length A) = i + k
                      \<and> whitespace w \<and> wfValue v) \<or> appendAt json (i + k)"
            using c
          proof
            assume "valueAt json (i + k)"
            then obtain A' v' B' where "json = A' @ [] @ render v' @ B'"
              "int (length A') = i + k" "whitespace []" "wfValue v'"
              unfolding valueAt_def by auto
            then show ?thesis by blast
          next
            assume "appendAt json (i + k)"
            then show ?thesis by simp
          qed
          show ?thesis using less.hyps[OF m j0 j' c'] st False by simp
        qed
      qed
    qed
  qed
qed

lemma rewritePath_safe:
  assumes "whitespace w" "wfValue v"
  shows "\<exists>r. rewritePath (w @ render v @ B) cap path val ip = Some r \<and>
           (r = Panic PathOutOfRange \<or> (\<exists>x. r = Ret x))"
proof (cases "path = []")
  case True
  then show ?thesis by (simp add: rewritePath_def)
next
  case False
  let ?json = "w @ render v @ B"
  have "(\<exists>A w' v' B'. ?json = A @ w' @ render v' @ B' \<and> int (length A) = 0
            \<and> whitespace w' \<and> wfValue v') \<or> appendAt ?json 0"
    using assms by (intro disjI1 exI[of _ "[]"] exI[of _ w] exI[of _ v] exI[of _ B]) simp
  then obtain r where r: "pathLoop ?json path 0 0 = Some r"
    and c: "r = Panic PathOutOfRange \<or> r = Ret Unmodified \<or>
            (\<exists>i' acc. r = Ret (Located i' acc) \<and> (valueAt ?json i' \<or> appendAt ?json i'))"
    using pathLoop_safe[of 0 path ?json 0] by auto
  from c show ?thesis
  proof (elim disjE exE conjE)
    assume "r = Panic PathOutOfRange"
    then show ?thesis using False r by (simp add: rewritePath_def)
  next
    assume "r = Ret Unmodified"
    then show ?thesis using False r by (simp add: rewritePath_def)
  next
    fix i' acc
    assume l: "r = Ret (Located i' acc)" and "valueAt ?json i'"
    then obtain x where "replaceAt ?json i' acc val ip = Some (Ret x)"
      using replaceAt_at_value by blast
    then show ?thesis using False r l by (simp add: rewritePath_def)
  next
    fix i' acc
    assume l: "r = Ret (Located i' acc)" and "appendAt ?json i'"
    then obtain x where "replaceAt ?json i' acc val ip = Some (Ret x)"
      using replaceAt_at_append by blast
    then show ?thesis using False r l by (simp add: rewritePath_def)
  qed
qed

section \<open>Claims\<close>

text \<open>
  Claim C8 (null promotion; only the accessor \<^verbatim>\<open>0\<close> is legal for \<^verbatim>\<open>null\<close>, any other
  accessor leaves the document unchanged). The code does not do this for the accessor
  \<^verbatim>\<open>00\<close>: \<^verbatim>\<open>locateAccessor\<close> accepts every accessor that \<^verbatim>\<open>strconv.Atoi\<close> reads as
  zero and returns the offset of the last \<^verbatim>\<open>l\<close> of \<^verbatim>\<open>null\<close>, while \<^verbatim>\<open>rewritePath\<close>
  steps back to the \<^verbatim>\<open>n\<close> only for the accessor \<^verbatim>\<open>0\<close> itself. The replacement is then
  spliced into the middle of the token.
\<close>

theorem null_accessor_00_splits_token:
  \<open>Set ''{"foo":null}'' ''foo.00'' ''1'' =
     Some (Ret \<lparr>returned = ''{"foo":nul1l}'', buffer = ''{"foo":null}'', shared = False\<rparr>)\<close>
  by code_simp

text \<open>
  Claim C3 (on an existing object key, \<^verbatim>\<open>Set\<close> changes the bytes of that key's value and
  no others). The code does not do this for every well-formed document and every such
  path: it can panic. The document \<^verbatim>\<open>{"a":{"":1}}\<close> is well-formed, its inner object has
  the empty key, and the path \<^verbatim>\<open>a.\<close> addresses it: the last accessor is the empty string
  behind the dot, and the locator finds it in the inner object, at offset 4, where the
  value \<^verbatim>\<open>1\<close> stands. But the loop \<^verbatim>\<open>for j := 0; lastAcc == ""; j++\<close> of \<^verbatim>\<open>rewritePath\<close>
  reads an empty \<^verbatim>\<open>lastAcc\<close> as "the last accessor has not been seen", runs once more
  and evaluates \<^verbatim>\<open>path[3:]\<close> on a path of two bytes: \<^verbatim>\<open>Set\<close> and \<^verbatim>\<open>SetInPlace\<close> end in a
  run-time panic, where the package promises the replacement, or the original document
  for a malformed path.
\<close>

theorem set_existing_empty_key_panics:
  \<open>render (JObject [] [Member [] ''a'' [] []
             (JObject [] [Member [] [] [] [] (JNumber ''1'') []]) []]) = ''{"a":{"":1}}'' \<and>
   wfValue (JObject [] [Member [] ''a'' [] []
             (JObject [] [Member [] [] [] [] (JNumber ''1'') []]) []]) \<and>
   findMember [] [Member [] [] [] [] (JNumber ''1'') []] = Some (''"":'', JNumber ''1'', []) \<and>
   locateAccessor ''{"":1}'' [] = Some (Ret 4) \<and>
   Set ''{"a":{"":1}}'' ''a.'' ''2'' = Some (Panic PathOutOfRange) \<and>
   SetInPlace ''{"a":{"":1}}'' 12 ''a.'' ''2'' = Some (Panic PathOutOfRange)\<close>
  by code_simp

text \<open>
  A valid path can also be taken for a malformed one. Having found an accessor that is
  not the last, the loop tests \<^verbatim>\<open>json[accIndex]\<close>, although \<^verbatim>\<open>accIndex\<close> is an offset
  into \<^verbatim>\<open>json[i:]\<close>. In \<^verbatim>\<open>{"full":{"x":{"y":1}}}\<close> the accessor \<^verbatim>\<open>x\<close> is found at offset
  5 from the cursor 8; byte 5 of the buffer is the second \<^verbatim>\<open>l\<close> of \<^verbatim>\<open>full\<close>, which the
  loop takes for the end of a \<^verbatim>\<open>null\<close>, and \<^verbatim>\<open>Set\<close> returns the document as it is: the
  value of the existing key \<^verbatim>\<open>y\<close> is not replaced.
\<close>

lemma set_valid_path_taken_for_malformed:
  \<open>locateAccessor ''{"full":{"x":{"y":1}}}'' ''full'' = Some (Ret 8) \<and>
   locateAccessor ''{"x":{"y":1}}}'' ''x'' = Some (Ret 5) \<and>
   locateAccessor ''{"y":1}}}'' ''y'' = Some (Ret 5) \<and>
   Set ''{"full":{"x":{"y":1}}}'' ''full.x.y'' ''2'' =
     Some (Ret \<lparr>returned = ''{"full":{"x":{"y":1}}}'', buffer = ''{"full":{"x":{"y":1}}}'',
                 shared = True\<rparr>)\<close>
  by code_simp

text \<open>
  What the code does keep. When the loop arrives at the object (\<open>reaches\<close>: no earlier
  accessor was taken for a malformed one) and the last accessor is not empty and is the
  key of a member, the document is \<open>before @ render v @ behind\<close>, where \<open>v\<close> is the value
  of the first member with that key, and the result is \<open>before @ new @ behind\<close> with the
  very same \<open>before\<close> and \<open>behind\<close>. The new bytes are the replacement, wrapped in
  brackets when the old value is \<^verbatim>\<open>null\<close>.
\<close>

lemma set_member_frame:
  assumes "reaches json (pfx @ acc) (int (length pfx)) (int (length pre))"
    and "json = pre @ w @ render (JObject w0 ms) @ rest"
    and "whitespace w" "wfValue (JObject w0 ms)" "acc \<noteq> []" "CHR ''.'' \<notin> set acc"
    and "findMember acc ms = Some (p, v, q)"
  shows "json = (pre @ w @ CHR ''{'' # w0 @ p) @ render v @ (q @ CHR ''}'' # rest) \<and>
         Set json (pfx @ acc) val =
           Some (Ret \<lparr>returned = (pre @ w @ CHR ''{'' # w0 @ p)
                                   @ (if v = JNull then CHR ''['' # val @ '']'' else val)
                                   @ (q @ CHR ''}'' # rest),
                       buffer = json, shared = False\<rparr>)"
proof -
  note m = rewritePath_member[OF assms]
  have "Set json (pfx @ acc) val
      = replaceAt ((pre @ w @ CHR ''{'' # w0 @ p) @ render v @ (q @ CHR ''}'' # rest))
          (int (length (pre @ w @ CHR ''{'' # w0 @ p))) acc val False"
    unfolding Set_def by (rule m(1))
  also have "\<dots> = Some (Ret \<lparr>returned = (pre @ w @ CHR ''{'' # w0 @ p)
                                   @ (if v = JNull then CHR ''['' # val @ '']'' else val)
                                   @ (q @ CHR ''}'' # rest),
                       buffer = (pre @ w @ CHR ''{'' # w0 @ p) @ render v @ (q @ CHR ''}'' # rest),
                       shared = False\<rparr>)"
    using m(3,4) by (rule replaceAt_found)
  finally show ?thesis using m(2) by simp
qed

lemma reaches_name_last:
  \<open>reaches ''{"name":{"last":"Anderson"}}'' ''name.last'' 5 8\<close>
proof -
  have l: \<open>locateAccessor (drop (nat 0) ''{"name":{"last":"Anderson"}}'') ''name'' = Some (Ret 8)\<close>
    by code_simp
  have \<open>reaches ''{"name":{"last":"Anderson"}}'' ''name.last'' (0 + int (length ''name'') + 1) (0 + 8)\<close>
    by (rule reaches.step[OF reaches.start _ _ _ _ _ l]) simp_all
  then show ?thesis by simp
qed

lemma set_member_frame_example:
  \<open>Set ''{"name":{"last":"Anderson"}}'' ''name.last'' ''"Smith"'' =
     Some (Ret \<lparr>returned = ''{"name":{"last":"Smith"}}'',
                 buffer = ''{"name":{"last":"Anderson"}}'', shared = False\<rparr>)\<close>
proof -
  have r: \<open>reaches ''{"name":{"last":"Anderson"}}'' (''name.'' @ ''last'')
      (int (length ''name.'')) (int (length ''{"name":''))\<close>
    using reaches_name_last by simp
  have j: \<open>''{"name":{"last":"Anderson"}}''
      = ''{"name":'' @ [] @ render (JObject [] [Member [] ''last'' [] [] (JString ''Anderson'') []]) @ ''}''\<close>
    by simp
  have f: \<open>findMember ''last'' [Member [] ''last'' [] [] (JString ''Anderson'') []]
      = Some (''"last":'', JString ''Anderson'', [])\<close>
    by simp
  show ?thesis
    using set_member_frame[OF r j _ _ _ _ f, of \<open>''"Smith"''\<close>]
    by simp
qed

text \<open>
  Claim C10. When \<^verbatim>\<open>Set\<close> or \<^verbatim>\<open>SetInPlace\<close> appends a new key to an object, the inserted
  member is a quote, the bytes of the accessor as they are, a quote, a colon and the
  replacement, preceded by a comma iff the object has a member already. Nothing is
  escaped, whatever bytes the accessor holds. (An accessor cannot hold a dot, and an
  empty last accessor never appends; \<^verbatim>\<open>SetInPlace\<close> with an empty replacement writes
  nothing.)
\<close>

theorem append_key_inserts_accessor_bytes_verbatim:
  assumes "reaches json (pfx @ acc) (int (length pfx)) (int (length pre))"
    and "json = pre @ w @ render (JObject w0 ms) @ rest"
    and "whitespace w" "wfValue (JObject w0 ms)" "acc \<noteq> []" "CHR ''.'' \<notin> set acc"
    and "findMember acc ms = None"
    and "length acc \<le> length (render (JObject w0 ms) @ rest)"
  shows "Set json (pfx @ acc) val =
           Some (Ret \<lparr>returned = pre @ w @ CHR ''{'' # w0 @ commas (map renderMember ms)
                                   @ (if ms = [] then [] else '','')
                                   @ CHR 0x22 # acc @ CHR 0x22 # CHR '':'' # val @ CHR ''}'' # rest,
                       buffer = json, shared = False\<rparr>) \<and>
         (val \<noteq> [] \<longrightarrow>
          SetInPlace json cap (pfx @ acc) val =
           Some (Ret \<lparr>returned = pre @ w @ CHR ''{'' # w0 @ commas (map renderMember ms)
                                   @ (if ms = [] then [] else '','')
                                   @ CHR 0x22 # acc @ CHR 0x22 # CHR '':'' # val @ CHR ''}'' # rest,
                       buffer = json, shared = False\<rparr>))"
proof -
  have "rewritePath json (length json) (pfx @ acc) val False =
           Some (Ret \<lparr>returned = pre @ w @ CHR ''{'' # w0 @ commas (map renderMember ms)
                                   @ (if ms = [] then [] else '','')
                                   @ CHR 0x22 # acc @ CHR 0x22 # CHR '':'' # val @ CHR ''}'' # rest,
                       buffer = json, shared = False\<rparr>)"
    using assms by (rule rewritePath_append_key) simp
  moreover have "rewritePath json cap (pfx @ acc) val True =
           Some (Ret \<lparr>returned = pre @ w @ CHR ''{'' # w0 @ commas (map renderMember ms)
                                   @ (if ms = [] then [] else '','')
                                   @ CHR 0x22 # acc @ CHR 0x22 # CHR '':'' # val @ CHR ''}'' # rest,
                       buffer = json, shared = False\<rparr>)"
    if "val \<noteq> []"
    using assms by (rule rewritePath_append_key) (use that in simp)
  ultimately show ?thesis unfolding Set_def SetInPlace_def by simp
qed

theorem append_key_inserts_accessor_bytes_verbatim_witness:
  \<open>Set ''{"x":1}'' (''a"b'' @ [CHR 0x5C]) ''2'' =
     Some (Ret \<lparr>returned = ''{"x":1,"a"b'' @ [CHR 0x5C] @ ''":2}'',
                 buffer = ''{"x":1}'', shared = False\<rparr>) \<and>
   SetInPlace ''{"x":1}'' 7 (''a"b'' @ [CHR 0x5C]) ''2'' =
     Some (Ret \<lparr>returned = ''{"x":1,"a"b'' @ [CHR 0x5C] @ ''":2}'',
                 buffer = ''{"x":1}'', shared = False\<rparr>)\<close>
proof -
  have r: \<open>reaches ''{"x":1}'' ([] @ (''a"b'' @ [CHR 0x5C])) (int (length ([] :: bytes)))
      (int (length ([] :: bytes)))\<close>
    using reaches.start[of \<open>''{"x":1}''\<close> \<open>''a"b'' @ [CHR 0x5C]\<close>] by simp
  have j: \<open>''{"x":1}'' = [] @ [] @ render (JObject [] [Member [] ''x'' [] [] (JNumber ''1'') []]) @ []\<close>
    by simp
  show ?thesis
    using append_key_inserts_accessor_bytes_verbatim[OF r j, of \<open>''2''\<close> 7]
    by (simp add: numChar_def)
qed

text \<open>
  Claim C9. Object-key lookup compares the accessor with the bytes between the quotes
  of a key as they stand in the buffer. \<^verbatim>\<open>parseString\<close> returns exactly these bytes,
  escape sequences included (\<open>strBody\<close>: no unescaped quote, every backslash followed by
  one byte). On a well-formed object the locator returns the offset of the value of the
  first member whose undecoded key equals the accessor byte for byte (\<open>findMember\<close>),
  or the offset of the closing brace when no key does, provided the accessor is not
  longer than the buffer that starts at the object. A member is matched iff its
  undecoded key is the accessor.
\<close>

theorem key_lookup_compares_undecoded_bytes:
  assumes "strBody k" "whitespace w" "wfValue (JObject w0 ms)"
  shows "parseString (CHR 0x22 # k @ CHR 0x22 # r) = Ret (k, r) \<and>
         locateAccessor (w @ render (JObject w0 ms) @ rest) acc =
           Some (Ret (if length (render (JObject w0 ms) @ rest) < length acc then - 1
                      else case findMember acc ms of
                             Some (p, v, q) \<Rightarrow> int (length (w @ CHR ''{'' # w0 @ p))
                           | None \<Rightarrow> int (length (w @ CHR ''{'' # w0 @ commas (map renderMember ms))))) \<and>
         ((\<exists>p v q. findMember acc ms = Some (p, v, q)) \<longleftrightarrow> acc \<in> set (map memberKey ms))"
proof (intro conjI)
  show "parseString (CHR 0x22 # k @ CHR 0x22 # r) = Ret (k, r)"
    using assms(1) by (rule parseString_literal)
  show "(\<exists>p v q. findMember acc ms = Some (p, v, q)) \<longleftrightarrow> acc \<in> set (map memberKey ms)"
    using findMember_None_iff[of acc ms] by (cases "findMember acc ms") auto
  show "locateAccessor (w @ render (JObject w0 ms) @ rest) acc =
           Some (Ret (if length (render (JObject w0 ms) @ rest) < length acc then - 1
                      else case findMember acc ms of
                             Some (p, v, q) \<Rightarrow> int (length (w @ CHR ''{'' # w0 @ p))
                           | None \<Rightarrow> int (length (w @ CHR ''{'' # w0 @ commas (map renderMember ms)))))"
  proof (cases "length (render (JObject w0 ms) @ rest) < length acc")
    case True
    have "consumeWhitespace (w @ render (JObject w0 ms) @ rest) = render (JObject w0 ms) @ rest"
      using assms(2) by (intro consumeWhitespace_skip) (auto simp: notSpace_iff)
    then have "locateAccessor (w @ render (JObject w0 ms) @ rest) acc = Some (Ret (- 1))"
      using True by (intro locateAccessor_short) simp
    then show ?thesis using True by simp
  next
    case False
    then have g: "length acc \<le> length (render (JObject w0 ms) @ rest)" by simp
    have l: "locateAccessor (w @ render (JObject w0 ms) @ rest) acc
      = Some (Ret (int (length (w @ CHR ''{'' # w0 @ commas (map renderMember ms)))
                   - int (length (afterKey acc ms))))"
      using assms(2,3) g by (rule locateAccessor_object)
    show ?thesis
    proof (cases "findMember acc ms")
      case None
      then show ?thesis using False l by (simp add: afterKey_absent)
    next
      case (Some t)
      then obtain p v q where f: "findMember acc ms = Some (p, v, q)" by (cases t) auto
      then show ?thesis
        using False l by (simp add: afterKey_found[OF f] findMember_render[OF f])
    qed
  qed
qed

theorem key_lookup_compares_undecoded_bytes_witness:
  \<open>parseString (CHR 0x22 # (''a'' @ [CHR 0x5C] @ ''"b'') @ CHR 0x22 # '':1}'')
     = Ret (''a'' @ [CHR 0x5C] @ ''"b'', '':1}'') \<and>
   locateAccessor (''{"a'' @ [CHR 0x5C] @ ''"b":1,"ab":2}'') (''a'' @ [CHR 0x5C] @ ''"b'') = Some (Ret 8) \<and>
   locateAccessor (''{"a'' @ [CHR 0x5C] @ ''"b":1,"ab":2}'') ''a"b'' = Some (Ret 16)\<close>
proof -
  have k: \<open>strBody (''a'' @ [CHR 0x5C] @ ''"b'')\<close> by simp
  have w: \<open>whitespace []\<close> by simp
  have o: \<open>wfValue (JObject [] [Member [] (''a'' @ [CHR 0x5C] @ ''"b'') [] [] (JNumber ''1'') [],
                               Member [] ''ab'' [] [] (JNumber ''2'') []])\<close>
    by (simp add: numChar_def)
  note t = key_lookup_compares_undecoded_bytes[OF k w o, of \<open>'':1}''\<close> \<open>[]\<close>]
  show ?thesis
    using t[of \<open>''a'' @ [CHR 0x5C] @ ''"b''\<close>] t[of \<open>''a"b''\<close>] by simp
qed

text \<open>
  Claim C6, as stated, fails: the array \<^verbatim>\<open>[]\<close> has length 0 and \<^verbatim>\<open>strconv.Atoi\<close> reads the
  accessor \<^verbatim>\<open>000\<close> as 0, yet nothing is appended, because \<^verbatim>\<open>locateAccessor\<close> returns -1
  as soon as the accessor is longer than the buffer left at the container.
\<close>

theorem set_index_longer_than_buffer_is_rejected:
  \<open>Atoi ''000'' = Some 0 \<and>
   Set ''[]'' ''000'' ''1'' = Some (Ret \<lparr>returned = ''[]'', buffer = ''[]'', shared = True\<rparr>)\<close>
  by code_simp

text \<open>
  Claim C6, amended. For a well-formed array of length \<open>L\<close> at the offset the loop has
  reached, and a last accessor that \<^verbatim>\<open>strconv.Atoi\<close> reads as \<open>n \<ge> 0\<close>: if the accessor is
  not longer than the buffer from the array on, then the element at \<open>n < L\<close>, when it is
  not \<^verbatim>\<open>null\<close>, is replaced in its exact byte span; for \<open>n = L\<close> the replacement is
  inserted in front of the closing bracket, behind a comma iff the array has elements;
  for \<open>n > L\<close> the document is returned as it is. If the accessor is longer than that
  buffer the document is returned as it is, whatever \<open>n\<close> is.
\<close>

theorem set_array_index_replace_append_reject:
  assumes "reaches json (pfx @ acc) (int (length pfx)) (int (length pre))"
    and "json = pre @ w @ render (JArray w0 es) @ rest"
    and "whitespace w" "wfValue (JArray w0 es)" "acc \<noteq> []" "CHR ''.'' \<notin> set acc"
    and "Atoi acc = Some n" "0 \<le> n"
  shows "(length acc \<le> length (render (JArray w0 es) @ rest) \<longrightarrow>
            (\<forall>p v q. nthElem (nat n) es = Some (p, v, q) \<and> v \<noteq> JNull \<longrightarrow>
               json = (pre @ w @ CHR ''['' # w0 @ p) @ render v @ (q @ CHR '']'' # rest) \<and>
               Set json (pfx @ acc) val =
                 Some (Ret \<lparr>returned = (pre @ w @ CHR ''['' # w0 @ p) @ val @ (q @ CHR '']'' # rest),
                             buffer = json, shared = False\<rparr>)) \<and>
            (n = int (length es) \<longrightarrow>
               Set json (pfx @ acc) val =
                 Some (Ret \<lparr>returned = pre @ w @ CHR ''['' # w0 @ commas (map renderElem es)
                                         @ (if es = [] then [] else '','') @ val @ CHR '']'' # rest,
                             buffer = json, shared = False\<rparr>)) \<and>
            (int (length es) < n \<longrightarrow>
               Set json (pfx @ acc) val =
                 Some (Ret \<lparr>returned = json, buffer = json, shared = True\<rparr>))) \<and>
         (length (render (JArray w0 es) @ rest) < length acc \<longrightarrow>
            Set json (pfx @ acc) val = Some (Ret \<lparr>returned = json, buffer = json, shared = True\<rparr>)) \<and>
         ((\<exists>p v q. nthElem (nat n) es = Some (p, v, q)) \<longleftrightarrow> n < int (length es))"
proof (intro conjI impI allI)
  fix p v q
  assume g: "length acc \<le> length (render (JArray w0 es) @ rest)"
    and f: "nthElem (nat n) es = Some (p, v, q) \<and> v \<noteq> JNull"
  note e = rewritePath_element[OF assms(1-6) g assms(7,8) conjunct1[OF f]]
  show "json = (pre @ w @ CHR ''['' # w0 @ p) @ render v @ (q @ CHR '']'' # rest)" by (rule e(2))
  have "Set json (pfx @ acc) val
      = replaceAt ((pre @ w @ CHR ''['' # w0 @ p) @ render v @ (q @ CHR '']'' # rest))
          (int (length (pre @ w @ CHR ''['' # w0 @ p))) acc val False"
    unfolding Set_def by (rule e(1))
  also have "\<dots> = Some (Ret \<lparr>returned = (pre @ w @ CHR ''['' # w0 @ p)
                                   @ (if v = JNull then CHR ''['' # val @ '']'' else val)
                                   @ (q @ CHR '']'' # rest),
                       buffer = (pre @ w @ CHR ''['' # w0 @ p) @ render v @ (q @ CHR '']'' # rest),
                       shared = False\<rparr>)"
    using e(3,4) by (rule replaceAt_found)
  finally show "Set json (pfx @ acc) val =
                 Some (Ret \<lparr>returned = (pre @ w @ CHR ''['' # w0 @ p) @ val @ (q @ CHR '']'' # rest),
                             buffer = json, shared = False\<rparr>)"
    using f e(2) by simp
next
  assume g: "length acc \<le> length (render (JArray w0 es) @ rest)" and n: "n = int (length es)"
  show "Set json (pfx @ acc) val =
                 Some (Ret \<lparr>returned = pre @ w @ CHR ''['' # w0 @ commas (map renderElem es)
                                         @ (if es = [] then [] else '','') @ val @ CHR '']'' # rest,
                             buffer = json, shared = False\<rparr>)"
    unfolding Set_def
    using assms(1-6) g assms(7)[unfolded n] by (rule rewritePath_append_element) simp
next
  assume g: "length acc \<le> length (render (JArray w0 es) @ rest)" and n: "int (length es) < n"
  show "Set json (pfx @ acc) val = Some (Ret \<lparr>returned = json, buffer = json, shared = True\<rparr>)"
    unfolding Set_def unchanged_def[symmetric]
    using assms(1-6) g assms(7) n by (rule rewritePath_beyond_array)
next
  assume g: "length (render (JArray w0 es) @ rest) < length acc"
  show "Set json (pfx @ acc) val = Some (Ret \<lparr>returned = json, buffer = json, shared = True\<rparr>)"
    unfolding Set_def unchanged_def[symmetric]
    using assms(1) _ assms(3) _ _ assms(6) g
    by (rule rewritePath_too_short) (simp_all add: assms(2,5) notSpace_iff)
next
  show "(\<exists>p v q. nthElem (nat n) es = Some (p, v, q)) \<longleftrightarrow> n < int (length es)"
    using nthElem_Some_iff[of "nat n" es] assms(8) by auto
qed

lemma reaches_friends:
  \<open>reaches ''{"friends":["Andy","Carol"]}'' (''friends.'' @ acc) (int (length ''friends.''))
     (int (length ''{"friends":''))\<close>
proof -
  have l: \<open>locateAccessor (drop (nat 0) ''{"friends":["Andy","Carol"]}'') ''friends'' = Some (Ret 11)\<close>
    by code_simp
  have \<open>reaches ''{"friends":["Andy","Carol"]}'' (''friends.'' @ acc)
      (0 + int (length ''friends'') + 1) (0 + 11)\<close>
    by (rule reaches.step[OF reaches.start _ _ _ _ _ l, where others = acc]) simp_all
  then show ?thesis by simp
qed

theorem set_array_index_replace_append_reject_witness:
  \<open>Set ''{"friends":["Andy","Carol"]}'' ''friends.1'' ''"Sara"'' =
     Some (Ret \<lparr>returned = ''{"friends":["Andy","Sara"]}'',
                 buffer = ''{"friends":["Andy","Carol"]}'', shared = False\<rparr>) \<and>
   Set ''{"friends":["Andy","Carol"]}'' ''friends.2'' ''"Sara"'' =
     Some (Ret \<lparr>returned = ''{"friends":["Andy","Carol","Sara"]}'',
                 buffer = ''{"friends":["Andy","Carol"]}'', shared = False\<rparr>) \<and>
   Set ''{"friends":["Andy","Carol"]}'' ''friends.3'' ''"Sara"'' =
     Some (Ret \<lparr>returned = ''{"friends":["Andy","Carol"]}'',
                 buffer = ''{"friends":["Andy","Carol"]}'', shared = True\<rparr>)\<close>
proof -
  define es where \<open>es = [Elem [] (JString ''Andy'') [], Elem [] (JString ''Carol'') []]\<close>
  have j: \<open>''{"friends":["Andy","Carol"]}'' = ''{"friends":'' @ [] @ render (JArray [] es) @ ''}''\<close>
    by (simp add: es_def)
  have w: \<open>whitespace []\<close> and wf: \<open>wfValue (JArray [] es)\<close> by (simp_all add: es_def)
  have a: \<open>Atoi ''1'' = Some 1\<close> \<open>Atoi ''2'' = Some 2\<close> \<open>Atoi ''3'' = Some 3\<close>
    by (simp_all add: Atoi_def isDigit_def decimal_def)
  have g: \<open>length ''1'' \<le> length (render (JArray [] es) @ ''}'')\<close>
    \<open>length ''2'' \<le> length (render (JArray [] es) @ ''}'')\<close>
    \<open>length ''3'' \<le> length (render (JArray [] es) @ ''}'')\<close>
    by simp_all
  have e: \<open>nthElem (nat 1) es = Some (''"Andy",'', JString ''Carol'', []) \<and> JString ''Carol'' \<noteq> JNull\<close>
    by (simp add: es_def sepTail_def)
  note t = set_array_index_replace_append_reject[OF reaches_friends j w wf,
      where val = \<open>''"Sara"''\<close>]
  have ne: \<open>''1'' \<noteq> []\<close> \<open>''2'' \<noteq> []\<close> \<open>''3'' \<noteq> []\<close> by simp_all
  have nd: \<open>CHR ''.'' \<notin> set ''1''\<close> \<open>CHR ''.'' \<notin> set ''2''\<close> \<open>CHR ''.'' \<notin> set ''3''\<close>
    by simp_all
  have nn: \<open>(0::int) \<le> 1\<close> \<open>(0::int) \<le> 2\<close> \<open>(0::int) \<le> 3\<close> by simp_all
  have n2: \<open>(2::int) = int (length es)\<close> and n3: \<open>int (length es) < 3\<close> by (simp_all add: es_def)
  note r1 = conjunct2[OF mp[OF spec[OF spec[OF spec[OF
            conjunct1[OF mp[OF conjunct1[OF t[OF ne(1) nd(1) a(1) nn(1)]] g(1)]]]]] e]]
  note r2 = mp[OF conjunct1[OF conjunct2[OF mp[OF conjunct1[OF t[OF ne(2) nd(2) a(2) nn(2)]] g(2)]]] n2]
  note r3 = mp[OF conjunct2[OF conjunct2[OF mp[OF conjunct1[OF t[OF ne(3) nd(3) a(3) nn(3)]] g(3)]]] n3]
  have c2: \<open>commas (map renderElem es) @ (if es = [] then [] else '','') = ''"Andy","Carol",''\<close>
    by (simp add: es_def)
  have t1: \<open>Set ''{"friends":["Andy","Carol"]}'' ''friends.1'' ''"Sara"'' =
     Some (Ret \<lparr>returned = ''{"friends":["Andy","Sara"]}'',
                 buffer = ''{"friends":["Andy","Carol"]}'', shared = False\<rparr>)\<close>
    using r1 by simp
  have t2: \<open>Set ''{"friends":["Andy","Carol"]}'' ''friends.2'' ''"Sara"'' =
     Some (Ret \<lparr>returned = ''{"friends":["Andy","Carol","Sara"]}'',
                 buffer = ''{"friends":["Andy","Carol"]}'', shared = False\<rparr>)\<close>
    using r2 c2 by simp
  have t3: \<open>Set ''{"friends":["Andy","Carol"]}'' ''friends.3'' ''"Sara"'' =
     Some (Ret \<lparr>returned = ''{"friends":["Andy","Carol"]}'',
                 buffer = ''{"friends":["Andy","Carol"]}'', shared = True\<rparr>)\<close>
    using r3 by simp
  show ?thesis using t1 t2 t3 by (intro conjI)
qed

text \<open>
  Claim C1, as stated, fails at its own first example: \<^verbatim>\<open>Set(`{}`, "foo", 3)\<close> returns
  \<^verbatim>\<open>{}\<close>. The locator returns -1 (not found) instead of the append location, because
  the accessor, three bytes, is longer than the buffer, two bytes.
\<close>

theorem set_key_longer_than_buffer_is_rejected:
  \<open>locateAccessor ''{}'' ''foo'' = Some (Ret (- 1)) \<and>
   Set ''{}'' ''foo'' ''3'' = Some (Ret \<lparr>returned = ''{}'', buffer = ''{}'', shared = True\<rparr>)\<close>
  by code_simp

text \<open>
  Claim C1, amended. For an empty object or array (whitespace between the delimiters
  allowed) at the offset the loop has reached, and a non-empty last accessor that
  addresses the first slot (any key; an index that \<^verbatim>\<open>strconv.Atoi\<close> reads as 0): if the accessor is not
  longer than the buffer from the container on, the locator returns the offset of the
  closing delimiter, and \<^verbatim>\<open>Set\<close> inserts the new member or element in front of it, with no
  comma; otherwise the locator returns -1 and \<^verbatim>\<open>Set\<close> returns the document as it is.
\<close>

theorem set_first_member_of_empty_container:
  assumes "reaches json (pfx @ acc) (int (length pfx)) (int (length pre))"
    and "whitespace w" "whitespace w0" "acc \<noteq> []" "CHR ''.'' \<notin> set acc"
  shows "(json = pre @ w @ CHR ''{'' # w0 @ CHR ''}'' # rest \<longrightarrow>
           (if length acc \<le> length (CHR ''{'' # w0 @ CHR ''}'' # rest)
            then locateAccessor (w @ CHR ''{'' # w0 @ CHR ''}'' # rest) acc
                   = Some (Ret (int (length (w @ CHR ''{'' # w0)))) \<and>
                 Set json (pfx @ acc) val =
                   Some (Ret \<lparr>returned = pre @ w @ CHR ''{'' # w0
                                 @ CHR 0x22 # acc @ CHR 0x22 # CHR '':'' # val @ CHR ''}'' # rest,
                               buffer = json, shared = False\<rparr>)
            else locateAccessor (w @ CHR ''{'' # w0 @ CHR ''}'' # rest) acc = Some (Ret (- 1)) \<and>
                 Set json (pfx @ acc) val =
                   Some (Ret \<lparr>returned = json, buffer = json, shared = True\<rparr>))) \<and>
         (json = pre @ w @ CHR ''['' # w0 @ CHR '']'' # rest \<and> Atoi acc = Some 0 \<longrightarrow>
           (if length acc \<le> length (CHR ''['' # w0 @ CHR '']'' # rest)
            then locateAccessor (w @ CHR ''['' # w0 @ CHR '']'' # rest) acc
                   = Some (Ret (int (length (w @ CHR ''['' # w0)))) \<and>
                 Set json (pfx @ acc) val =
                   Some (Ret \<lparr>returned = pre @ w @ CHR ''['' # w0 @ val @ CHR '']'' # rest,
                               buffer = json, shared = False\<rparr>)
            else locateAccessor (w @ CHR ''['' # w0 @ CHR '']'' # rest) acc = Some (Ret (- 1)) \<and>
                 Set json (pfx @ acc) val =
                   Some (Ret \<lparr>returned = json, buffer = json, shared = True\<rparr>)))"
proof (intro conjI impI)
  assume j: "json = pre @ w @ CHR ''{'' # w0 @ CHR ''}'' # rest"
  have wf: "wfValue (JObject w0 [])" using assms(3) by simp
  have j': "json = pre @ w @ render (JObject w0 []) @ rest" by (simp add: j)
  show "if length acc \<le> length (CHR ''{'' # w0 @ CHR ''}'' # rest)
            then locateAccessor (w @ CHR ''{'' # w0 @ CHR ''}'' # rest) acc
                   = Some (Ret (int (length (w @ CHR ''{'' # w0)))) \<and>
                 Set json (pfx @ acc) val =
                   Some (Ret \<lparr>returned = pre @ w @ CHR ''{'' # w0
                                 @ CHR 0x22 # acc @ CHR 0x22 # CHR '':'' # val @ CHR ''}'' # rest,
                               buffer = json, shared = False\<rparr>)
            else locateAccessor (w @ CHR ''{'' # w0 @ CHR ''}'' # rest) acc = Some (Ret (- 1)) \<and>
                 Set json (pfx @ acc) val =
                   Some (Ret \<lparr>returned = json, buffer = json, shared = True\<rparr>)"
  proof (cases "length acc \<le> length (CHR ''{'' # w0 @ CHR ''}'' # rest)")
    case True
    then have g: "length acc \<le> length (render (JObject w0 []) @ rest)" by simp
    have "locateAccessor (w @ render (JObject w0 []) @ rest) acc
        = Some (Ret (int (length (w @ CHR ''{'' # w0 @ commas (map renderMember [])))
                     - int (length (afterKey acc []))))"
      using assms(2) wf g by (rule locateAccessor_object)
    moreover have "rewritePath json (length json) (pfx @ acc) val False =
           Some (Ret \<lparr>returned = pre @ w @ CHR ''{'' # w0 @ commas (map renderMember [])
                                   @ (if ([] :: jmember list) = [] then [] else '','')
                                   @ CHR 0x22 # acc @ CHR 0x22 # CHR '':'' # val @ CHR ''}'' # rest,
                       buffer = json, shared = False\<rparr>)"
      using assms(1) j' assms(2) wf assms(4,5) _ g
      by (rule rewritePath_append_key) simp_all
    ultimately show ?thesis using True by (simp add: Set_def)
  next
    case False
    then have s: "length (CHR ''{'' # w0 @ CHR ''}'' # rest) < length acc" by simp
    have "consumeWhitespace (w @ CHR ''{'' # w0 @ CHR ''}'' # rest) = CHR ''{'' # w0 @ CHR ''}'' # rest"
      using assms(2) by (intro consumeWhitespace_skip) (simp_all add: notSpace_iff)
    then have "locateAccessor (w @ CHR ''{'' # w0 @ CHR ''}'' # rest) acc = Some (Ret (- 1))"
      using s by (intro locateAccessor_short) simp
    moreover have "rewritePath json (length json) (pfx @ acc) val False = Some (Ret (unchanged json))"
      using assms(1) j assms(2) _ _ assms(5) s
      by (rule rewritePath_too_short) (simp_all add: assms(4) notSpace_iff)
    ultimately show ?thesis using False by (simp add: Set_def unchanged_def)
  qed
next
  assume "json = pre @ w @ CHR ''['' # w0 @ CHR '']'' # rest \<and> Atoi acc = Some 0"
  then have j: "json = pre @ w @ CHR ''['' # w0 @ CHR '']'' # rest" and a: "Atoi acc = Some 0"
    by simp_all
  have wf: "wfValue (JArray w0 [])" using assms(3) by simp
  have j': "json = pre @ w @ render (JArray w0 []) @ rest" by (simp add: j)
  have a': "Atoi acc = Some (int (length ([] :: jelem list)))" using a by simp
  show "if length acc \<le> length (CHR ''['' # w0 @ CHR '']'' # rest)
            then locateAccessor (w @ CHR ''['' # w0 @ CHR '']'' # rest) acc
                   = Some (Ret (int (length (w @ CHR ''['' # w0)))) \<and>
                 Set json (pfx @ acc) val =
                   Some (Ret \<lparr>returned = pre @ w @ CHR ''['' # w0 @ val @ CHR '']'' # rest,
                               buffer = json, shared = False\<rparr>)
            else locateAccessor (w @ CHR ''['' # w0 @ CHR '']'' # rest) acc = Some (Ret (- 1)) \<and>
                 Set json (pfx @ acc) val =
                   Some (Ret \<lparr>returned = json, buffer = json, shared = True\<rparr>)"
  proof (cases "length acc \<le> length (CHR ''['' # w0 @ CHR '']'' # rest)")
    case True
    then have g: "length acc \<le> length (render (JArray w0 []) @ rest)" by simp
    have "locateAccessor (w @ render (JArray w0 []) @ rest) acc
        = Some (Ret (int (length (w @ CHR ''['' # w0 @ commas (map renderElem [])))))"
      using assms(2) wf g a' by (rule locateAccessor_array_at(2)) simp_all
    moreover have "rewritePath json (length json) (pfx @ acc) val False =
           Some (Ret \<lparr>returned = pre @ w @ CHR ''['' # w0 @ commas (map renderElem [])
                                   @ (if ([] :: jelem list) = [] then [] else '','')
                                   @ val @ CHR '']'' # rest,
                       buffer = json, shared = False\<rparr>)"
      using assms(1) j' assms(2) wf assms(4,5) g a'
      by (rule rewritePath_append_element) simp
    ultimately show ?thesis using True by (simp add: Set_def)
  next
    case False
    then have s: "length (CHR ''['' # w0 @ CHR '']'' # rest) < length acc" by simp
    have "consumeWhitespace (w @ CHR ''['' # w0 @ CHR '']'' # rest) = CHR ''['' # w0 @ CHR '']'' # rest"
      using assms(2) by (intro consumeWhitespace_skip) (simp_all add: notSpace_iff)
    then have "locateAccessor (w @ CHR ''['' # w0 @ CHR '']'' # rest) acc = Some (Ret (- 1))"
      using s by (intro locateAccessor_short) simp
    moreover have "rewritePath json (length json) (pfx @ acc) val False = Some (Ret (unchanged json))"
      using assms(1) j assms(2) _ _ assms(5) s
      by (rule rewritePath_too_short) (simp_all add: assms(4) notSpace_iff)
    ultimately show ?thesis using False by (simp add: Set_def unchanged_def)
  qed
qed

theorem set_first_member_of_empty_container_witness:
  \<open>Set ''[]'' ''0'' ''"bar"'' =
     Some (Ret \<lparr>returned = ''["bar"]'', buffer = ''[]'', shared = False\<rparr>) \<and>
   Set ''{}'' ''fo'' ''3'' =
     Some (Ret \<lparr>returned = ''{"fo":3}'', buffer = ''{}'', shared = False\<rparr>) \<and>
   Set ''{}'' ''foo'' ''3'' =
     Some (Ret \<lparr>returned = ''{}'', buffer = ''{}'', shared = True\<rparr>)\<close>
proof -
  have r: \<open>reaches json ([] @ acc) (int (length ([] :: bytes))) (int (length ([] :: bytes)))\<close>
    for json acc
    using reaches.start[of json acc] by simp
  have w: \<open>whitespace []\<close> by simp
  have a: \<open>Atoi ''0'' = Some 0\<close> by (simp add: Atoi_def isDigit_def decimal_def)
  note t = set_first_member_of_empty_container[OF r w w, where rest = \<open>[]\<close>]
  have t1: \<open>Set ''[]'' ''0'' ''"bar"'' =
     Some (Ret \<lparr>returned = ''["bar"]'', buffer = ''[]'', shared = False\<rparr>)\<close>
    using conjunct2[OF t[where acc = \<open>''0''\<close> and json = \<open>''[]''\<close> and val = \<open>''"bar"''\<close>]] a by simp
  have t2: \<open>Set ''{}'' ''fo'' ''3'' =
     Some (Ret \<lparr>returned = ''{"fo":3}'', buffer = ''{}'', shared = False\<rparr>)\<close>
    using conjunct1[OF t[where acc = \<open>''fo''\<close> and json = \<open>''{}''\<close> and val = \<open>''3''\<close>]] by simp
  have t3: \<open>Set ''{}'' ''foo'' ''3'' =
     Some (Ret \<lparr>returned = ''{}'', buffer = ''{}'', shared = True\<rparr>)\<close>
    using conjunct1[OF t[where acc = \<open>''foo''\<close> and json = \<open>''{}''\<close> and val = \<open>''3''\<close>]] by simp
  show ?thesis using t1 t2 t3 by (intro conjI)
qed

text \<open>
  Claim C7 (append idempotence), as the specification states it: after a successful append
  at index \<open>n\<close> of an array of length \<open>n\<close>, a second call with the same literal index is
  rejected and returns its input unchanged.

  The code does otherwise. On \<^verbatim>\<open>{"arr":[1]}\<close>, \<^verbatim>\<open>Set(d, "arr.1", 2)\<close> appends and gives
  \<^verbatim>\<open>{"arr":[1,2]}\<close>; the array now has two elements, so index 1 addresses the element
  just appended, and \<^verbatim>\<open>Set\<close> of the result with \<^verbatim>\<open>"arr.1"\<close> and \<^verbatim>\<open>3\<close> replaces it:
  the second call returns \<^verbatim>\<open>{"arr":[1,3]}\<close>, not its input.
\<close>

theorem second_append_at_same_index_replaces:
  \<open>Set ''{"arr":[1]}'' ''arr.1'' ''2''
     = Some (Ret \<lparr>returned = ''{"arr":[1,2]}'', buffer = ''{"arr":[1]}'', shared = False\<rparr>)
   \<and> Set ''{"arr":[1,2]}'' ''arr.1'' ''3''
     = Some (Ret \<lparr>returned = ''{"arr":[1,3]}'', buffer = ''{"arr":[1,2]}'', shared = False\<rparr>)
   \<and> Set ''{"arr":[1,2]}'' ''arr.1'' ''2''
     = Some (Ret \<lparr>returned = ''{"arr":[1,2]}'', buffer = ''{"arr":[1,2]}'', shared = False\<rparr>)\<close>
  by code_simp

text \<open>
  Claim C7, amended: an absolute index makes the append idempotent rather than
  self-rejecting. Let the document be a well-formed object (leading whitespace \<open>w\<close>,
  any bytes \<open>rest\<close> behind it) in which the key \<open>key\<close> holds an array of \<open>n\<close> elements, let
  \<open>acc\<close> be an index that \<^verbatim>\<open>strconv.Atoi\<close> reads as \<open>n\<close>, not longer than the buffer from
  the array on, and let \<open>v1\<close> be a well-formed value other than \<^verbatim>\<open>null\<close>. Then
  \<^verbatim>\<open>Set(d, key.acc, val)\<close> appends \<open>val\<close> behind the last element, for every \<open>val\<close>, and
  \<^verbatim>\<open>Set\<close> of the document with \<open>v1\<close> appended, with the same path and a value \<open>val2\<close>,
  replaces \<open>v1\<close> by \<open>val2\<close>: it returns what \<^verbatim>\<open>Set(d, key.acc, val2)\<close> returns, and the
  identical call (\<open>val2\<close> the text of \<open>v1\<close>) returns the same document once more.
\<close>

theorem append_at_absolute_index_is_idempotent:
  assumes "json = w @ render (JObject w0 ms) @ rest" "whitespace w" "wfValue (JObject w0 ms)"
    and "findMember key ms = Some (p, JArray a0 es, q)" "CHR ''.'' \<notin> set key"
    and "Atoi acc = Some (int (length es))"
    and "length acc \<le> length (render (JArray a0 es) @ q @ CHR ''}'' # rest)"
    and "wfValue v1" "v1 \<noteq> JNull"
    and "front = w @ CHR ''{'' # w0 @ p @ CHR ''['' # a0 @ commas (map renderElem es)
                   @ (if es = [] then [] else '','')"
    and "back = CHR '']'' # q @ CHR ''}'' # rest"
  shows "(\<forall>val. Set json (key @ ''.'' @ acc) val
            = Some (Ret \<lparr>returned = front @ val @ back, buffer = json, shared = False\<rparr>))
       \<and> (\<forall>val2. Set (front @ render v1 @ back) (key @ ''.'' @ acc) val2
            = Some (Ret \<lparr>returned = front @ val2 @ back, buffer = front @ render v1 @ back,
                         shared = False\<rparr>))"
proof -
  have shape: "acc \<noteq> []" "CHR ''.'' \<notin> set acc"
    using Atoi_shape[OF assms(6)] by simp_all
  have r: "reaches json ((key @ ''.'') @ acc) (int (length (key @ ''.'')))
             (int (length (w @ CHR ''{'' # w0 @ p)))"
    using assms(1-5) by (rule reaches_member)
  have wfms: "list_all wfMember ms" "whitespace w0" using assms(3) by simp_all
  have body: "commas (map renderMember ms) = p @ render (JArray a0 es) @ q"
    using assms(4) by (rule findMember_render)
  have wfa: "wfValue (JArray a0 es)" using assms(4) wfms(1) by (rule findMember_wf)
  have j: "json = (w @ CHR ''{'' # w0 @ p) @ [] @ render (JArray a0 es) @ (q @ CHR ''}'' # rest)"
    by (simp add: assms(1) body)
  have first: "Set json (key @ ''.'' @ acc) val
      = Some (Ret \<lparr>returned = front @ val @ back, buffer = json, shared = False\<rparr>)" for val
  proof -
    have "rewritePath json (length json) ((key @ ''.'') @ acc) val False =
           Some (Ret \<lparr>returned = (w @ CHR ''{'' # w0 @ p) @ [] @ CHR ''['' # a0
                                   @ commas (map renderElem es)
                                   @ (if es = [] then [] else '','') @ val
                                   @ CHR '']'' # (q @ CHR ''}'' # rest),
                       buffer = json, shared = False\<rparr>)"
      using r j _ wfa shape assms(7,6)
      by (rule rewritePath_append_element) simp_all
    then show ?thesis by (simp add: Set_def assms(10,11))
  qed
  define es' where "es' = es @ [Elem [] v1 []]"
  define ms' where "ms' = setMember key (JArray a0 es') ms"
  define json' where "json' = front @ render v1 @ back"
  have wfa': "wfValue (JArray a0 es')" using wfa assms(8) by (simp add: es'_def)
  have f': "findMember key ms' = Some (p, JArray a0 es', q)"
    unfolding ms'_def using assms(4) by (rule findMember_setMember)
  have wf': "wfValue (JObject w0 ms')"
    using wfms wfa' by (simp add: ms'_def wf_setMember)
  have body': "commas (map renderMember ms') = p @ render (JArray a0 es') @ q"
    using f' by (rule findMember_render)
  have ra: "render (JArray a0 es') = CHR ''['' # a0 @ commas (map renderElem es)
              @ (if es = [] then [] else '','') @ render v1 @ '']''"
    by (simp add: es'_def commas_append_one)
  have ro: "render (JObject w0 ms') = CHR ''{'' # w0 @ p @ render (JArray a0 es') @ q @ ''}''"
    by (simp add: body')
  have j': "json' = w @ render (JObject w0 ms') @ rest"
    unfolding ro ra json'_def assms(10,11) by simp
  have r': "reaches json' ((key @ ''.'') @ acc) (int (length (key @ ''.'')))
             (int (length (w @ CHR ''{'' # w0 @ p)))"
    using j' assms(2) wf' f' assms(5) by (rule reaches_member)
  have j2: "json' = (w @ CHR ''{'' # w0 @ p) @ [] @ render (JArray a0 es') @ (q @ CHR ''}'' # rest)"
    unfolding j' ro by simp
  have g': "length acc \<le> length (render (JArray a0 es') @ q @ CHR ''}'' # rest)"
    unfolding ra using assms(7) by simp
  have nth: "nthElem (nat (int (length es))) es'
      = Some (commas (map renderElem es) @ (if es = [] then [] else '','') @ [], v1, [])"
    unfolding es'_def nat_int by (rule nthElem_snoc)
  note e = rewritePath_element[OF r' j2 _ wfa' shape g' assms(6) _ nth]
  have second: "Set json' (key @ ''.'' @ acc) val2
      = Some (Ret \<lparr>returned = front @ val2 @ back, buffer = json', shared = False\<rparr>)" for val2
  proof -
    define A where "A = (w @ CHR ''{'' # w0 @ p) @ [] @ CHR ''['' # a0
        @ commas (map renderElem es) @ (if es = [] then [] else '','') @ []"
    define B where "B = [] @ CHR '']'' # q @ CHR ''}'' # rest"
    have fk: "followOk v1 B" unfolding B_def using e(4) by simp
    have jj: "json' = A @ render v1 @ B" unfolding A_def B_def using e(2) by simp
    have "rewritePath json' (length json') ((key @ ''.'') @ acc) val2 False
        = replaceAt (A @ render v1 @ B) (int (length A)) acc val2 False"
      unfolding A_def B_def using e(1)[of "length json'" val2 False] by simp
    also have "\<dots> = Some (Ret \<lparr>returned = A @ (if v1 = JNull then CHR ''['' # val2 @ '']'' else val2) @ B,
                 buffer = A @ render v1 @ B, shared = False\<rparr>)"
      using assms(8) fk by (rule replaceAt_found)
    finally show ?thesis
      using assms(9) by (simp add: Set_def jj[symmetric]) (simp add: A_def B_def assms(10,11))
  qed
  show ?thesis using first second unfolding json'_def by blast
qed

theorem append_at_absolute_index_is_idempotent_witness:
  \<open>Set ''{"arr":[1]}'' ''arr.1'' ''2''
     = Some (Ret \<lparr>returned = ''{"arr":[1,2]}'', buffer = ''{"arr":[1]}'', shared = False\<rparr>)
   \<and> Set ''{"arr":[1,2]}'' ''arr.1'' ''2''
     = Some (Ret \<lparr>returned = ''{"arr":[1,2]}'', buffer = ''{"arr":[1,2]}'', shared = False\<rparr>)
   \<and> Set ''{"arr":[1,2]}'' ''arr.1'' ''[3]''
     = Some (Ret \<lparr>returned = ''{"arr":[1,[3]]}'', buffer = ''{"arr":[1,2]}'', shared = False\<rparr>)\<close>
proof -
  define ms where "ms = [Member [] ''arr'' [] [] (JArray [] [Elem [] (JNumber ''1'') []]) []]"
  have j: \<open>''{"arr":[1]}'' = [] @ render (JObject [] ms) @ []\<close> by (simp add: ms_def)
  have w: "whitespace []" by simp
  have wf: "wfValue (JObject [] ms)" by (simp add: ms_def numChar_def)
  have f: \<open>findMember ''arr'' ms = Some (''"arr":'', JArray [] [Elem [] (JNumber ''1'') []], [])\<close>
    by (simp add: ms_def)
  have nd: "CHR ''.'' \<notin> set ''arr''" by simp
  have a: "Atoi ''1'' = Some (int (length [Elem [] (JNumber ''1'') []]))" by code_simp
  have g: "length ''1'' \<le> length (render (JArray [] [Elem [] (JNumber ''1'') []]) @ [] @ CHR ''}'' # [])"
    by simp
  have v: "wfValue (JNumber ''2'')" "JNumber ''2'' \<noteq> JNull" by (simp_all add: numChar_def)
  note t = append_at_absolute_index_is_idempotent[OF j w wf f nd a g v refl refl]
  have c1: \<open>Set ''{"arr":[1]}'' ''arr.1'' ''2''
     = Some (Ret \<lparr>returned = ''{"arr":[1,2]}'', buffer = ''{"arr":[1]}'', shared = False\<rparr>)\<close>
    using t[THEN conjunct1, THEN spec, of "''2''"] by simp
  have c2: \<open>Set ''{"arr":[1,2]}'' ''arr.1'' ''2''
     = Some (Ret \<lparr>returned = ''{"arr":[1,2]}'', buffer = ''{"arr":[1,2]}'', shared = False\<rparr>)\<close>
    using t[THEN conjunct2, THEN spec, of "''2''"] by simp
  have c3: \<open>Set ''{"arr":[1,2]}'' ''arr.1'' ''[3]''
     = Some (Ret \<lparr>returned = ''{"arr":[1,[3]]}'', buffer = ''{"arr":[1,2]}'', shared = False\<rparr>)\<close>
    using t[THEN conjunct2, THEN spec, of "''[3]''"] by simp
  show ?thesis using c1 c2 c3 by (intro conjI)
qed

text \<open>
  Claim C5 (in-place replacement), as the specification states it: whenever the
  replacement is no longer than the byte span of the value the path addresses,
  \<^verbatim>\<open>SetInPlace\<close> returns a buffer of the length of the document.

  With the empty path the value addressed is the whole document, and \<^verbatim>\<open>rewritePath\<close>
  returns \<^verbatim>\<open>append(json[:0], val...)\<close>: on the five bytes \<^verbatim>\<open>"foo"\<close> and the replacement
  \<^verbatim>\<open>""\<close>, two bytes, the slice returned has length two, whatever the capacity of the
  buffer (\<^verbatim>\<open>TestSetInPlace\<close> expects this result); with a capacity of five the buffer
  is shared and holds \<^verbatim>\<open>""oo"\<close> afterwards, nothing is padded with spaces.
\<close>

theorem set_in_place_empty_path_truncates:
  \<open>(\<forall>cap. \<exists>r. SetInPlace ''"foo"'' cap [] ''""'' = Some (Ret r) \<and> returned r = ''""''
       \<and> length (returned r) = 2) \<and>
   length ''"foo"'' = 5 \<and>
   SetInPlace ''"foo"'' 5 [] ''""''
     = Some (Ret \<lparr>returned = ''""'', buffer = ''""oo"'', shared = True\<rparr>)\<close>
  by (simp add: SetInPlace_def rewritePath_def)

text \<open>
  Claim C5, amended: the statement holds for every non-empty path. Let the loop have
  resolved the prefix \<open>pfx\<close> of the path and stand at offset \<open>i\<close>, let the locator find the
  last accessor \<open>acc\<close>, which is not empty, at offset \<open>k\<close> from there, and let a well-formed value \<open>v\<close> stand at
  that place, \<open>json = A @ render v @ B\<close> with \<open>length A = i + k\<close>. If the replacement is
  no longer than the text of \<open>v\<close>, then \<^verbatim>\<open>SetInPlace\<close> returns the buffer itself (shared, of
  the length of the document): the bytes in front of and behind the value are as they
  were, the replacement stands at the start of the old span and the rest of the span is
  filled with spaces. For the empty path \<^verbatim>\<open>SetInPlace\<close> returns the replacement alone, in
  the storage of the document when its capacity suffices.
\<close>

theorem set_in_place_keeps_length_and_pads:
  assumes "reaches json (pfx @ acc) (int (length pfx)) i"
    and "acc \<noteq> []" "CHR ''.'' \<notin> set acc"
    and "locateAccessor (drop (nat i) json) acc = Some (Ret k)" "0 \<le> k"
    and "json = A @ render v @ B" "int (length A) = i + k"
    and "wfValue v" "followOk v B"
    and "length val \<le> length (render v)"
    and "pad = replicate (length (render v) - length val) (CHR '' '')"
  shows "SetInPlace json cap (pfx @ acc) val
           = Some (Ret \<lparr>returned = A @ val @ pad @ B, buffer = A @ val @ pad @ B, shared = True\<rparr>)
       \<and> length (A @ val @ pad @ B) = length json
       \<and> (\<forall>d c. \<exists>r. SetInPlace d c [] val = Some (Ret r) \<and> returned r = val)"
proof -
  obtain c cs where hd: "render v = c # cs" using render_head[OF assms(8)] by metis
  have i0: "0 \<le> i" using reaches_bounds[OF assms(1)] by simp
  have il: "i \<le> int (length json)" using assms(5,7) by (simp add: assms(6))
  have kl: "k < int (length json)" using i0 assms(7) by (simp add: assms(6) hd)
  have "rewritePath json cap (pfx @ acc) val True = replaceAt json (i + k) acc val True"
    using assms(1) il assms(2,3,4,5) kl by (rule rewritePath_located)
  also have "\<dots> = replaceAt (A @ render v @ B) (int (length A)) acc val True"
    by (simp add: assms(6,7))
  also have "\<dots> = Some (Ret \<lparr>returned = A @ val @ pad @ B, buffer = A @ val @ pad @ B,
                               shared = True\<rparr>)"
    unfolding assms(11) using assms(8,9,10) by (rule replaceAt_found_in_place)
  finally have 1: "SetInPlace json cap (pfx @ acc) val
           = Some (Ret \<lparr>returned = A @ val @ pad @ B, buffer = A @ val @ pad @ B, shared = True\<rparr>)"
    by (simp add: SetInPlace_def)
  have 2: "length (A @ val @ pad @ B) = length json"
    using assms(10) by (simp add: assms(6,11))
  have 3: "\<exists>r. SetInPlace d c [] val = Some (Ret r) \<and> returned r = val" for d c
    by (simp add: SetInPlace_def rewritePath_def)
  show ?thesis using 1 2 3 by blast
qed

theorem set_in_place_keeps_length_and_pads_witness:
  \<open>SetInPlace ''{"a":{"b":"hello"}}'' 19 ''a.b'' ''"x"''
     = Some (Ret \<lparr>returned = ''{"a":{"b":"x"    }}'', buffer = ''{"a":{"b":"x"    }}'',
                 shared = True\<rparr>)
   \<and> length ''{"a":{"b":"x"    }}'' = length ''{"a":{"b":"hello"}}''\<close>
proof -
  have l: \<open>locateAccessor (drop (nat 0) ''{"a":{"b":"hello"}}'') ''a'' = Some (Ret 5)\<close>
    by code_simp
  have \<open>reaches ''{"a":{"b":"hello"}}'' (''a.'' @ ''b'') (0 + int (length ''a'') + 1) (0 + 5)\<close>
    by (rule reaches.step[OF reaches.start _ _ _ _ _ l]) simp_all
  then have r: \<open>reaches ''{"a":{"b":"hello"}}'' (''a.'' @ ''b'') (int (length ''a.'')) 5\<close>
    by simp
  have ne: "''b'' \<noteq> []" by simp
  have nd: "CHR ''.'' \<notin> set ''b''" by simp
  have k: \<open>locateAccessor (drop (nat 5) ''{"a":{"b":"hello"}}'') ''b'' = Some (Ret 5)\<close>
    by code_simp
  have k0: "(0::int) \<le> 5" by simp
  have j: \<open>''{"a":{"b":"hello"}}'' = ''{"a":{"b":'' @ render (JString ''hello'') @ ''}}''\<close>
    by simp
  have a: \<open>int (length ''{"a":{"b":'') = 5 + 5\<close> by simp
  have v: "wfValue (JString ''hello'')" by simp
  have f: "followOk (JString ''hello'') ''}}''" by (simp add: followOk_def)
  have n: \<open>length ''"x"'' \<le> length (render (JString ''hello''))\<close> by simp
  note t = set_in_place_keeps_length_and_pads[OF r ne nd k k0 j a v f n refl, of 19]
  have c1: \<open>SetInPlace ''{"a":{"b":"hello"}}'' 19 ''a.b'' ''"x"''
     = Some (Ret \<lparr>returned = ''{"a":{"b":"x"    }}'', buffer = ''{"a":{"b":"x"    }}'',
                 shared = True\<rparr>)\<close>
    using t[THEN conjunct1] by (simp add: numeral_eq_Suc)
  have c2: \<open>length ''{"a":{"b":"x"    }}'' = length ''{"a":{"b":"hello"}}''\<close> by simp
  show ?thesis using c1 c2 by (intro conjI)
qed

text \<open>
  Claim C4 (a malformed path leaves the document alone). The loop of \<^verbatim>\<open>rewritePath\<close> has
  arrived at offset \<open>j\<close> of a non-empty path and offset \<open>i\<close> of the buffer (\<open>reaches\<close>);
  \<open>acc\<close> is the accessor that starts at \<open>j\<close>, and \<open>others\<close>, when not empty, is the dot and
  the accessors behind it. The path is malformed at \<open>acc\<close> when

    \<^item> the locator does not find \<open>acc\<close> (it returns -1), be \<open>acc\<close> the last accessor or not;
    \<^item> \<open>acc\<close> is not the last accessor and the locator returns a place to append at:
      the byte there is a closing bracket, a closing brace, or the last byte of
      \<^verbatim>\<open>null\<close>;
    \<^item> \<open>acc\<close> is not an integer for \<^verbatim>\<open>strconv.Atoi\<close> and is applied to an array or to
      \<^verbatim>\<open>null\<close>.

  In each case \<^verbatim>\<open>Set\<close> and \<^verbatim>\<open>SetInPlace\<close> return the slice they were given: the bytes
  returned are the bytes of the document, and the buffer holds them as before. This
  holds for every buffer, well-formed or not, every replacement and every capacity.
\<close>

theorem malformed_path_returns_document_untouched:
  assumes "reaches json path j i" "path \<noteq> []"
    and "drop (nat j) path = acc @ others" "CHR ''.'' \<notin> set acc"
    and "others = [] \<or> hd others = CHR ''.''"
    and "locateAccessor (drop (nat i) json) acc = Some (Ret (- 1))
       \<or> others \<noteq> [] \<and>
           (\<exists>k. locateAccessor (drop (nat i) json) acc = Some (Ret k) \<and> 0 \<le> k
                \<and> i + k < int (length json)
                \<and> (json ! nat (i + k) = CHR '']'' \<or> json ! nat (i + k) = CHR ''}''
                     \<or> json ! nat (i + k) = CHR ''l''))
       \<or> Atoi acc = None \<and>
           (\<exists>c cs. consumeWhitespace (drop (nat i) json) = c # cs
                \<and> (c = CHR ''['' \<or> c = CHR ''n''))"
  shows "Set json path val = Some (Ret \<lparr>returned = json, buffer = json, shared = True\<rparr>)
       \<and> SetInPlace json cap path val
           = Some (Ret \<lparr>returned = json, buffer = json, shared = True\<rparr>)"
proof -
  note b = reaches_inside[OF assms(1)]
  have j: "0 \<le> j" "j \<le> int (length path)" and i: "0 \<le> i" "i \<le> int (length json)"
    using b by simp_all
  have nf: "pathLoop json path j i = Some (Ret Unmodified)"
    if "locateAccessor (drop (nat i) json) acc = Some (Ret (- 1))"
    using j i assms(3,4,5) that by (rule pathLoop_notfound)
  let ?G = "pathLoop json path j i = Some (Ret Unmodified)"
  from assms(6) consider
      (absent) "locateAccessor (drop (nat i) json) acc = Some (Ret (- 1))"
    | (append) k where "others \<noteq> []"
        "locateAccessor (drop (nat i) json) acc = Some (Ret k)" "0 \<le> k"
        "i + k < int (length json)"
        "json ! nat (i + k) = CHR '']'' \<or> json ! nat (i + k) = CHR ''}''
                     \<or> json ! nat (i + k) = CHR ''l''"
    | (index) c cs where "Atoi acc = None" "consumeWhitespace (drop (nat i) json) = c # cs"
        "c = CHR ''['' \<or> c = CHR ''n''"
    by blast
  then have ?G
  proof cases
    case absent
    then show ?thesis by (rule nf)
  next
    case append
    from append(1) assms(5) obtain ds where "others = CHR ''.'' # ds" by (cases others) auto
    then have p: "drop (nat j) path = acc @ CHR ''.'' # ds" using assms(3) by simp
    show ?thesis using j i(1) p assms(4) append(2-5) by (rule pathLoop_append_inside)
  next
    case index
    have "locateAccessor (drop (nat i) json) acc = Some (Ret (- 1))"
      using index(2,3,1) by (rule locateAccessor_bad_index)
    then show ?thesis by (rule nf)
  qed
  with assms(1,2) have "rewritePath json c path val ip
           = Some (Ret \<lparr>returned = json, buffer = json, shared = True\<rparr>)" for c ip
    by (rule rewritePath_unmodified)
  then show ?thesis by (simp add: Set_def SetInPlace_def)
qed

theorem malformed_path_returns_document_untouched_witness:
  \<open>Set ''{"foo": [1,2]}'' ''bar.2'' ''"bar"''
     = Some (Ret \<lparr>returned = ''{"foo": [1,2]}'', buffer = ''{"foo": [1,2]}'', shared = True\<rparr>) \<and>
   SetInPlace ''{"foo": [1,2]}'' 14 ''foo.3'' ''7''
     = Some (Ret \<lparr>returned = ''{"foo": [1,2]}'', buffer = ''{"foo": [1,2]}'', shared = True\<rparr>) \<and>
   SetInPlace ''{"foo": [1,2]}'' 14 ''foo.x'' ''7''
     = Some (Ret \<lparr>returned = ''{"foo": [1,2]}'', buffer = ''{"foo": [1,2]}'', shared = True\<rparr>)\<close>
proof -
  let ?d = \<open>''{"foo": [1,2]}''\<close>
  have h: "[] = [] \<or> hd [] = CHR ''.''" by simp
  have r0: "reaches ?d ''bar.2'' 0 0" by (rule reaches.start)
  have ne0: "''bar.2'' \<noteq> []" by simp
  have d0: "drop (nat 0) ''bar.2'' = ''bar'' @ ''.2''" by simp
  have nd0: "CHR ''.'' \<notin> set ''bar''" by simp
  have h0: "''.2'' = [] \<or> hd ''.2'' = CHR ''.''" by simp
  have l0: "locateAccessor (drop (nat 0) ?d) ''bar'' = Some (Ret 13)" by code_simp
  have m0: "locateAccessor (drop (nat 0) ?d) ''bar'' = Some (Ret (- 1))
       \<or> ''.2'' \<noteq> [] \<and>
           (\<exists>k. locateAccessor (drop (nat 0) ?d) ''bar'' = Some (Ret k) \<and> 0 \<le> k
                \<and> 0 + k < int (length ?d)
                \<and> (?d ! nat (0 + k) = CHR '']'' \<or> ?d ! nat (0 + k) = CHR ''}''
                     \<or> ?d ! nat (0 + k) = CHR ''l''))
       \<or> Atoi ''bar'' = None \<and>
           (\<exists>c cs. consumeWhitespace (drop (nat 0) ?d) = c # cs
                \<and> (c = CHR ''['' \<or> c = CHR ''n''))"
    using l0 by (intro disjI2 disjI1 conjI exI[of _ 13]) simp_all
  have c1: "Set ?d ''bar.2'' ''\"bar\"''
     = Some (Ret \<lparr>returned = ?d, buffer = ?d, shared = True\<rparr>)"
    using malformed_path_returns_document_untouched[OF r0 ne0 d0 nd0 h0 m0] by (rule conjunct1)
  have l: "locateAccessor (drop (nat 0) ?d) ''foo'' = Some (Ret 8)" by code_simp
  have r3: "reaches ?d ''foo.3'' (0 + int (length ''foo'') + 1) (0 + 8)"
    by (rule reaches.step[OF reaches.start _ _ _ _ _ l]) simp_all
  have rx: "reaches ?d ''foo.x'' (0 + int (length ''foo'') + 1) (0 + 8)"
    by (rule reaches.step[OF reaches.start _ _ _ _ _ l]) simp_all
  have d3: "drop (nat (0 + int (length ''foo'') + 1)) ''foo.3'' = ''3'' @ []" by simp
  have dx: "drop (nat (0 + int (length ''foo'') + 1)) ''foo.x'' = ''x'' @ []" by simp
  have l3: "locateAccessor (drop (nat (0 + 8)) ?d) ''3'' = Some (Ret (- 1))" by code_simp
  have ax: "Atoi ''x'' = None" by code_simp
  have wx: "consumeWhitespace (drop (nat (0 + 8)) ?d) = CHR ''['' # ''1,2]}''"
    by (simp add: notSpace_iff)
  have c2: "SetInPlace ?d 14 ''foo.3'' ''7'' = Some (Ret \<lparr>returned = ?d, buffer = ?d, shared = True\<rparr>)"
    using malformed_path_returns_document_untouched[OF r3 _ d3 _ h, of "''7''" 14] l3 by simp
  have c3: "SetInPlace ?d 14 ''foo.x'' ''7'' = Some (Ret \<lparr>returned = ?d, buffer = ?d, shared = True\<rparr>)"
    using malformed_path_returns_document_untouched[OF rx _ dx _ h, of "''7''" 14] ax wx by simp
  show ?thesis using c1 c2 c3 by (intro conjI)
qed

text \<open>
  Claim C2 (no access outside the buffer), as the specification states it: for every
  buffer, malformed ones included, no function of the package indexes the buffer out of
  range.

  The scanner has no bounds checks; it relies on the document being well-formed. On the
  one-byte buffer \<^verbatim>\<open>{\<close> and the path \<^verbatim>\<open>a\<close>, \<^verbatim>\<open>locateAccessor\<close> consumes the brace and then
  evaluates \<^verbatim>\<open>json[0]\<close> on the empty slice in the head of its loop
  \<^verbatim>\<open>for json[0] != '}'\<close>: the index is out of range, and \<^verbatim>\<open>Set\<close> and \<^verbatim>\<open>SetInPlace\<close> end in
  the same run-time panic.
\<close>

theorem truncated_object_is_indexed_out_of_range:
  "locateAccessor ''{'' ''a'' = Some (Panic BufferOutOfRange) \<and>
   Set ''{'' ''a'' ''1'' = Some (Panic BufferOutOfRange) \<and>
   SetInPlace ''{'' 1 ''a'' ''1'' = Some (Panic BufferOutOfRange)"
  by code_simp

text \<open>
  Claim C2, amended: on a well-formed document no access to the buffer is out of range.
  The document is a well-formed value \<open>v\<close> behind optional whitespace \<open>w\<close>; what follows
  it in the buffer, \<open>rest\<close>, is arbitrary. Then for every path, every replacement and
  every capacity \<^verbatim>\<open>Set\<close>, \<^verbatim>\<open>SetInPlace\<close> and \<^verbatim>\<open>SetRawInPlace\<close> return, and not with an
  index or a slice bound of the buffer out of range; the locator returns an offset for
  every accessor, and \<^verbatim>\<open>consumeValue\<close> returns on the value. What remains possible is a
  slice bound of the \<^emph>\<open>path\<close> out of range, for a path that ends in a dot.
\<close>

theorem well_formed_document_is_never_indexed_out_of_range:
  assumes "whitespace w" "wfValue v"
  shows "(\<exists>r. Set (w @ render v @ rest) path val = Some r \<and> r \<noteq> Panic BufferOutOfRange)
       \<and> (\<exists>r. SetInPlace (w @ render v @ rest) cap path val = Some r
                \<and> r \<noteq> Panic BufferOutOfRange)
       \<and> (\<exists>r. SetRawInPlace (w @ render v @ rest) cap path val = Some r
                \<and> r \<noteq> Panic BufferOutOfRange)
       \<and> (\<exists>k. locateAccessor (w @ render v @ rest) acc = Some (Ret k))
       \<and> (\<exists>r. consumeValue (render v @ rest) = Some (Ret r))"
proof -
  have rp: "\<exists>r. rewritePath (w @ render v @ rest) c path val ip = Some r
              \<and> r \<noteq> Panic BufferOutOfRange" for c ip
    using rewritePath_safe[OF assms, of rest c path val ip] by auto
  have la: "\<exists>k. locateAccessor (w @ render v @ rest) acc = Some (Ret k)"
    using locateAccessor_wf[OF assms, of rest acc "[]"] by blast
  have cv: "\<exists>r. consumeValue (render v @ rest) = Some (Ret r)"
  proof (cases v)
    case (JNumber s)
    then obtain d ds where s: "s = d # ds" "numChar d" using assms(2) by (cases s) auto
    have "d \<noteq> CHR ''{''" "d \<noteq> CHR ''[''" "d \<noteq> CHR 0x22" "d \<noteq> CHR ''t''"
      "d \<noteq> CHR ''n''" "d \<noteq> CHR ''f''"
      using s(2) by (auto simp: numChar_def)
    then show ?thesis by (simp add: JNumber s(1) consumeValue_def)
  next
    case JNull
    then have "followOk v rest" by (simp add: followOk_def)
    with assms(2) show ?thesis using consumeValue_render by blast
  next
    case JTrue
    then have "followOk v rest" by (simp add: followOk_def)
    with assms(2) show ?thesis using consumeValue_render by blast
  next
    case JFalse
    then have "followOk v rest" by (simp add: followOk_def)
    with assms(2) show ?thesis using consumeValue_render by blast
  next
    case (JString s)
    then have "followOk v rest" by (simp add: followOk_def)
    with assms(2) show ?thesis using consumeValue_render by blast
  next
    case (JArray a es)
    then have "followOk v rest" by (simp add: followOk_def)
    with assms(2) show ?thesis using consumeValue_render by blast
  next
    case (JObject a ms)
    then have "followOk v rest" by (simp add: followOk_def)
    with assms(2) show ?thesis using consumeValue_render by blast
  qed
  show ?thesis
    unfolding Set_def SetInPlace_def SetRawInPlace_def using rp la cv by (intro conjI)
qed

theorem well_formed_document_is_never_indexed_out_of_range_witness:
  "(\<exists>r. Set ''[{}]'' ''0.'' ''1'' = Some r \<and> r \<noteq> Panic BufferOutOfRange)
   \<and> (\<exists>r. SetInPlace ''[{}]'' 4 ''0.'' ''1'' = Some r \<and> r \<noteq> Panic BufferOutOfRange)
   \<and> (\<exists>k. locateAccessor ''[{}]'' ''0'' = Some (Ret k))
   \<and> Set ''[{}]'' ''0.'' ''1'' = Some (Panic PathOutOfRange)"
proof -
  have w: "whitespace []" by simp
  have v: "wfValue (JArray [] [Elem [] (JObject [] []) []])" by simp
  note t = well_formed_document_is_never_indexed_out_of_range[OF w v,
      where rest = "[]" and path = "''0.''" and val = "''1''" and cap = 4 and acc = "''0''"]
  have c1: "\<exists>r. Set ''[{}]'' ''0.'' ''1'' = Some r \<and> r \<noteq> Panic BufferOutOfRange"
    using t[THEN conjunct1] by simp
  have c2: "\<exists>r. SetInPlace ''[{}]'' 4 ''0.'' ''1'' = Some r \<and> r \<noteq> Panic BufferOutOfRange"
    using t[THEN conjunct2, THEN conjunct1] by simp
  have c3: "\<exists>k. locateAccessor ''[{}]'' ''0'' = Some (Ret k)"
    using t[THEN conjunct2, THEN conjunct2, THEN conjunct2, THEN conjunct1] by simp
  have c4: "Set ''[{}]'' ''0.'' ''1'' = Some (Panic PathOutOfRange)" by code_simp
  show ?thesis using c1 c2 c3 c4 by (intro conjI)
qed

end
